theory Spec2Isabelle
  imports Main
begin

section \<open>Python values\<close>

text \<open>
  A Python \<open>str\<close> is a sequence of Unicode code points; \<open>len\<close> counts code points and
  the truncation marker of the strict engine is the single code point U+2026. A text is
  therefore a list of code points. \<open>py\<close> writes an ASCII literal as such a text.
\<close>

type_synonym pystr = "nat list"

definition py :: "string \<Rightarrow> pystr" where
  "py s = map of_char s"

text \<open>
  A Python \<open>float\<close> as the JSON decoder produces it: the decimal value of a number
  literal (\<open>Dec m e\<close> is \<open>m * 10 ^ e\<close>), or one of the three constants the decoder
  accepts. Rounding to binary64 (and with it overflow, underflow and the sign of zero)
  is not modelled; the engines only test the type of a float and whether it is zero.
\<close>

datatype pyfloat = Dec int int | NaN | PosInf | NegInf

text \<open>
  The values \<open>json.loads\<close> returns: \<open>None\<close>, \<open>bool\<close>, \<open>int\<close>, \<open>float\<close>, \<open>str\<close>,
  \<open>list\<close> and \<open>dict\<close>. A \<open>dict\<close> keeps its keys in insertion order, so it is an
  association list.
\<close>

datatype json =
    JNull
  | JBool bool
  | JInt int
  | JFloat pyfloat
  | JStr pystr
  | JArr "json list"
  | JObj "(pystr \<times> json) list"

datatype py_error = TypeError | AttributeError

text \<open>\<open>d.get(k)\<close>: the value stored under \<open>k\<close>, or \<open>None\<close>.\<close>

definition dict_get :: "(pystr \<times> json) list \<Rightarrow> pystr \<Rightarrow> json" where
  "dict_get d k = (case map_of d k of Some v \<Rightarrow> v | None \<Rightarrow> JNull)"

text \<open>\<open>d[k] = v\<close>: an existing key keeps its place, a new key goes last.\<close>

fun dict_set :: "(pystr \<times> json) list \<Rightarrow> pystr \<Rightarrow> json \<Rightarrow> (pystr \<times> json) list" where
  "dict_set [] k v = [(k, v)]"
| "dict_set ((k', v') # d) k v = (if k' = k then (k, v) # d else (k', v') # dict_set d k v)"

text \<open>\<open>isinstance\<close> against \<open>dict\<close>, \<open>list\<close>, \<open>str\<close> and \<open>(int, float)\<close>. Python's \<open>bool\<close> is
  a subclass of \<open>int\<close>, so \<open>isinstance(True, (int, float))\<close> holds.\<close>

fun is_dict :: "json \<Rightarrow> bool" where
  "is_dict (JObj d) = True"
| "is_dict v = False"

fun is_list :: "json \<Rightarrow> bool" where
  "is_list (JArr xs) = True"
| "is_list v = False"

fun is_str :: "json \<Rightarrow> bool" where
  "is_str (JStr s) = True"
| "is_str v = False"

fun is_int_or_float :: "json \<Rightarrow> bool" where
  "is_int_or_float (JInt i) = True"
| "is_int_or_float (JFloat f) = True"
| "is_int_or_float (JBool b) = True"
| "is_int_or_float v = False"

text \<open>The truth value of a Python object, as \<open>if x\<close> and \<open>x or y\<close> test it.\<close>

fun truthy :: "json \<Rightarrow> bool" where
  "truthy JNull = False"
| "truthy (JBool b) = b"
| "truthy (JInt i) = (i \<noteq> 0)"
| "truthy (JFloat (Dec m e)) = (m \<noteq> 0)"
| "truthy (JFloat f) = True"
| "truthy (JStr s) = (s \<noteq> [])"
| "truthy (JArr xs) = (xs \<noteq> [])"
| "truthy (JObj d) = (d \<noteq> [])"

text \<open>\<open>text[a:b]\<close> for indices \<open>0 \<le> a \<le> b\<close>.\<close>

definition slice :: "pystr \<Rightarrow> nat \<Rightarrow> nat \<Rightarrow> pystr" where
  "slice text a b = take (b - a) (drop a text)"

section \<open>The strict engine: scoring (score_array)\<close>

definition REQUIRED :: "pystr list" where
  "REQUIRED = [py ''path'', py ''cwe_guess'', py ''severity'', py ''confidence'', py ''lines'',
     py ''snippet'', py ''evidence'', py ''reasoning'', py ''fix'']"

text \<open>\<open>REQUIRED.issubset(it.keys())\<close>\<close>

definition has_required :: "(pystr \<times> json) list \<Rightarrow> bool" where
  "has_required d = list_all (\<lambda>k. map_of d k \<noteq> None) REQUIRED"

text \<open>One round of the counting loop of \<open>score_array\<close>: the nested \<open>if\<close>s of lines 66 to 71.\<close>

definition count_ok :: "json \<Rightarrow> int \<Rightarrow> int" where
  "count_ok it ok =
     (case it of
        JObj d \<Rightarrow>
          (if has_required d then
             (if is_str (dict_get d (py ''path'')) \<and> is_str (dict_get d (py ''cwe_guess'')) then
                (if is_str (dict_get d (py ''severity'')) \<and> is_int_or_float (dict_get d (py ''confidence'')) then
                   (if is_list (dict_get d (py ''lines'')) \<and> truthy (dict_get d (py ''lines'')) then ok + 1
                    else ok)
                 else ok)
              else ok)
           else ok)
      | _ \<Rightarrow> ok)"

definition score_array :: "json \<Rightarrow> int \<times> int" where
  "score_array arr =
     (case arr of
        JArr xs \<Rightarrow>
          (let objs = filter is_dict xs in
           if objs = [] then (0, 0)
           else (fold count_ok objs 0, int (length objs)))
      | _ \<Rightarrow> (-1, 0))"

text \<open>Python compares tuples lexicographically: \<open>sc > best_score\<close>.\<close>

fun tuple_gt :: "int \<times> int \<Rightarrow> int \<times> int \<Rightarrow> bool" where
  "tuple_gt (a, b) (c, d) = (a > c \<or> (a = c \<and> b > d))"

text \<open>
  The Finding Record of the specification, in its words: a mapping with the nine required
  keys, \<open>path\<close>, \<open>cwe_guess\<close> and \<open>severity\<close> strings, \<open>confidence\<close> a number and \<open>lines\<close> a
  non-empty sequence. \<open>is_number\<close> is a JSON number; \<open>py_valid_record\<close> is the same record
  with the type test the code makes on \<open>confidence\<close>.
\<close>

fun is_number :: "json \<Rightarrow> bool" where
  "is_number (JInt i) = True"
| "is_number (JFloat f) = True"
| "is_number v = False"

fun nonempty_list :: "json \<Rightarrow> bool" where
  "nonempty_list (JArr (x # xs)) = True"
| "nonempty_list v = False"

definition record_shape :: "(json \<Rightarrow> bool) \<Rightarrow> json \<Rightarrow> bool" where
  "record_shape numeric it =
     (case it of
        JObj d \<Rightarrow>
          set REQUIRED \<subseteq> fst ` set d \<and>
          is_str (dict_get d (py ''path'')) \<and>
          is_str (dict_get d (py ''cwe_guess'')) \<and>
          is_str (dict_get d (py ''severity'')) \<and>
          numeric (dict_get d (py ''confidence'')) \<and>
          nonempty_list (dict_get d (py ''lines''))
      | _ \<Rightarrow> False)"

definition spec_valid_record :: "json \<Rightarrow> bool" where
  "spec_valid_record = record_shape is_number"

definition py_valid_record :: "json \<Rightarrow> bool" where
  "py_valid_record = record_shape is_int_or_float"

section \<open>The strict engine: candidate generation (json_candidates)\<close>

subsection \<open>The two regular expressions\<close>

text \<open>
  Both patterns of \<open>json_candidates\<close> are sequences of single characters, greedy stars
  (\<open>\s*\<close>, \<open>[^{}]*\<close>) and lazy stars (\<open>[\s\S]*?\<close>) over character classes. \<open>rmatch\<close>
  is the backtracking match of such a sequence at the start of a text, with the
  priorities of Python's \<open>re\<close>: a greedy star first tries to take one more character, a
  lazy star first tries to stop. It returns the piece of text each item consumed.
\<close>

datatype rx = One "nat \<Rightarrow> bool" | Greedy "nat \<Rightarrow> bool" | Lazy "nat \<Rightarrow> bool"

fun rmatch :: "rx list \<Rightarrow> pystr \<Rightarrow> pystr list option" where
  "rmatch [] s = Some []"
| "rmatch (One p # r) [] = None"
| "rmatch (One p # r) (c # s) = (if p c then map_option ((#) [c]) (rmatch r s) else None)"
| "rmatch (Greedy p # r) [] = map_option ((#) []) (rmatch r [])"
| "rmatch (Greedy p # r) (c # s) =
     (if p c then
        (case rmatch (Greedy p # r) s of
           Some (w # ws) \<Rightarrow> Some ((c # w) # ws)
         | _ \<Rightarrow> map_option ((#) []) (rmatch r (c # s)))
      else map_option ((#) []) (rmatch r (c # s)))"
| "rmatch (Lazy p # r) [] = map_option ((#) []) (rmatch r [])"
| "rmatch (Lazy p # r) (c # s) =
     (case rmatch r (c # s) of
        Some ws \<Rightarrow> Some ([] # ws)
      | None \<Rightarrow>
          (if p c then
             (case rmatch (Lazy p # r) s of
                Some (w # ws) \<Rightarrow> Some ((c # w) # ws)
              | _ \<Rightarrow> None)
           else None))"

text \<open>
  \<open>re.finditer\<close>: the leftmost match from each position, the search resuming where the
  match ended (one character further after an empty match; both patterns start with a
  literal character, so their matches are never empty).
\<close>

fun finditer :: "rx list \<Rightarrow> pystr \<Rightarrow> pystr list list" where
  "finditer pat [] = []"
| "finditer pat (c # s) =
     (case rmatch pat (c # s) of
        Some ws \<Rightarrow> ws # finditer pat (drop (length (concat ws) - 1) s)
      | None \<Rightarrow> finditer pat s)"

definition lit :: "nat \<Rightarrow> nat \<Rightarrow> bool" where
  "lit k c = (c = k)"

definition lits :: "string \<Rightarrow> rx list" where
  "lits s = map (\<lambda>k. One (lit k)) (py s)"

text \<open>
  A lower-case letter under \<open>re.IGNORECASE\<close> on a \<open>str\<close> pattern: the letter, its capital,
  and for \<open>s\<close> (115) and \<open>k\<close> (107) the two code points that lower-case to them in
  Unicode (U+017F, U+212A). The pattern uses it for the letters of \<open>json\<close> only.
\<close>

definition lit_ic :: "nat \<Rightarrow> nat \<Rightarrow> bool" where
  "lit_ic k c = (c = k \<or> c + 32 = k \<or> (k = 115 \<and> c = 383) \<or> (k = 107 \<and> c = 8490))"

definition lits_ic :: "string \<Rightarrow> rx list" where
  "lits_ic s = map (\<lambda>k. One (lit_ic k)) (py s)"

text \<open>\<open>\s\<close> on a \<open>str\<close> pattern: the Unicode white space characters.\<close>

definition is_space :: "nat \<Rightarrow> bool" where
  "is_space c = ((9 \<le> c \<and> c \<le> 13) \<or> (28 \<le> c \<and> c \<le> 32) \<or> c = 133 \<or> c = 160 \<or>
      c = 5760 \<or> (8192 \<le> c \<and> c \<le> 8202) \<or> c = 8232 \<or> c = 8233 \<or> c = 8239 \<or>
      c = 8287 \<or> c = 12288)"

definition any_char :: "nat \<Rightarrow> bool" where
  "any_char c = True"

text \<open>\<open>[^{}]\<close>: the braces are the code points 123 and 125.\<close>

definition not_brace :: "nat \<Rightarrow> bool" where
  "not_brace c = (c \<noteq> 123 \<and> c \<noteq> 125)"

text \<open>\<^verbatim>\<open>```json\s*([\s\S]*?)```\<close> with \<open>re.IGNORECASE\<close>; group 1 is the ninth item.\<close>

definition FENCE_RE :: "rx list" where
  "FENCE_RE = lits ''```'' @ lits_ic ''json'' @ [Greedy is_space, Lazy any_char] @ lits ''```''"

definition fenced_blocks :: "pystr \<Rightarrow> pystr list" where
  "fenced_blocks text = map (\<lambda>ws. ws ! 8) (finditer FENCE_RE text)"

text \<open>\<^verbatim>\<open>\{[^{}]*\"findings\"\s*:\s*\[[\s\S]*?\][^{}]*\}\<close>; group 0 is the whole match.\<close>

definition FINDINGS_RE :: "rx list" where
  "FINDINGS_RE = lits ''{'' @ [Greedy not_brace] @ lits ''\"findings\"'' @
     [Greedy is_space] @ lits '':'' @ [Greedy is_space] @ lits ''['' @
     [Lazy any_char] @ lits '']'' @ [Greedy not_brace] @ lits ''}''"

definition findings_objects :: "pystr \<Rightarrow> pystr list" where
  "findings_objects text = map concat (finditer FINDINGS_RE text)"

subsection \<open>The balanced-bracket scan\<close>

text \<open>The characters \<open>[\<close> and \<open>]\<close>.\<close>

definition LBRACKET :: nat where
  "LBRACKET = 91"

definition RBRACKET :: nat where
  "RBRACKET = 93"

text \<open>
  The loop of lines 41 to 48 over \<open>enumerate(text)\<close>: \<open>i\<close> is the index of the next
  character, the third argument the characters from \<open>i\<close> on. The stack has its top at
  the head. The loop is left (\<open>break\<close>) when the fortieth fragment has been appended.
\<close>

fun bracket_scan :: "pystr \<Rightarrow> nat \<Rightarrow> pystr \<Rightarrow> nat list \<Rightarrow> pystr list \<Rightarrow> pystr list" where
  "bracket_scan text i [] stack arrays = arrays"
| "bracket_scan text i (ch # rest) stack arrays =
     (if ch = LBRACKET then bracket_scan text (i + 1) rest (i # stack) arrays
      else if ch = RBRACKET \<and> stack \<noteq> [] then
        (case stack of
           start # stack' \<Rightarrow>
             (let arrays' = arrays @ [slice text start (i + 1)] in
              if length arrays' \<ge> 40 then arrays'
              else bracket_scan text (i + 1) rest stack' arrays')
         | [] \<Rightarrow> arrays)
      else bracket_scan text (i + 1) rest stack arrays)"

definition balanced_arrays :: "pystr \<Rightarrow> pystr list" where
  "balanced_arrays text = bracket_scan text 0 text [] []"

subsection \<open>The five strategies\<close>

text \<open>
  \<open>json.loads\<close> belongs to Python's library. The engines take it as the parameter
  \<open>loads\<close>: \<open>None\<close> when it raises (every call stands in a \<open>try\<close> that swallows the
  exception), the decoded value otherwise.
\<close>

type_synonym decoder = "pystr \<Rightarrow> json option"

definition WRAPPER_KEYS :: "pystr list" where
  "WRAPPER_KEYS = [py ''message'', py ''output'', py ''response'', py ''content'', py ''text'']"

text \<open>One round of the loop of lines 20 to 25: what it yields for the key \<open>k\<close>.\<close>

definition wrapper_yield :: "(pystr \<times> json) list \<Rightarrow> pystr \<Rightarrow> json list" where
  "wrapper_yield obj k =
     (let v = dict_get obj k in
      case v of
        JObj d \<Rightarrow>
          (if map_of d (py ''content'') \<noteq> None \<and> is_str (dict_get d (py ''content''))
           then [dict_get d (py ''content'')] else [])
      | JStr s \<Rightarrow> [v]
      | _ \<Rightarrow> [])"

definition direct_candidates :: "decoder \<Rightarrow> pystr \<Rightarrow> json list" where
  "direct_candidates loads text = (case loads text of Some obj \<Rightarrow> [obj] | None \<Rightarrow> [])"

definition wrapper_candidates :: "decoder \<Rightarrow> pystr \<Rightarrow> json list" where
  "wrapper_candidates loads text =
     (case loads text of
        Some (JObj obj) \<Rightarrow> concat (map (wrapper_yield obj) WRAPPER_KEYS)
      | _ \<Rightarrow> [])"

text \<open>The values the generator yields, in the order it yields them.\<close>

definition json_candidates :: "decoder \<Rightarrow> pystr \<Rightarrow> json list" where
  "json_candidates loads text =
     direct_candidates loads text @
     wrapper_candidates loads text @
     map JStr (fenced_blocks text) @
     map JStr (findings_objects text) @
     map JStr (balanced_arrays text)"

section \<open>The strict engine: selection and post-processing (best_findings)\<close>

text \<open>
  \<open>load_json\<close>: a \<open>dict\<close> or \<open>list\<close> is returned as it is; anything else is handed to
  \<open>json.loads\<close>, which raises \<open>TypeError\<close> on a value that is not a \<open>str\<close>; the \<open>except\<close>
  turns every exception into \<open>None\<close>.
\<close>

definition load_json :: "decoder \<Rightarrow> json \<Rightarrow> json" where
  "load_json loads x =
     (case x of
        JObj d \<Rightarrow> x
      | JArr xs \<Rightarrow> x
      | JStr s \<Rightarrow> (case loads s of Some v \<Rightarrow> v | None \<Rightarrow> JNull)
      | _ \<Rightarrow> JNull)"

text \<open>Lines 78 to 81: the \<open>findings\<close> list of an object that has one, else the value itself.\<close>

definition unwrap :: "json \<Rightarrow> json" where
  "unwrap obj =
     (case obj of
        JObj d \<Rightarrow> (if is_list (dict_get d (py ''findings'')) then dict_get d (py ''findings'') else obj)
      | _ \<Rightarrow> obj)"

text \<open>The body of the loop of lines 76 to 84, on the pair \<open>(best, best_score)\<close>.\<close>

definition select_step :: "decoder \<Rightarrow> json \<times> (int \<times> int) \<Rightarrow> json \<Rightarrow> json \<times> (int \<times> int)" where
  "select_step loads st cand =
     (let arr = unwrap (load_json loads cand);
          sc = score_array arr
      in if tuple_gt sc (snd st) then (arr, sc) else st)"

definition select_best :: "decoder \<Rightarrow> json list \<Rightarrow> json \<times> (int \<times> int)" where
  "select_best loads cands = foldl (select_step loads) (JNull, (-1, 0)) cands"

definition ELLIPSIS :: pystr where
  "ELLIPSIS = [8230]"

text \<open>Lines 90 to 93: the element appended to \<open>out\<close> for the element \<open>it\<close>.\<close>

definition trim_snippet :: "json \<Rightarrow> json" where
  "trim_snippet it =
     (case it of
        JObj d \<Rightarrow>
          (case dict_get d (py ''snippet'') of
             JStr sn \<Rightarrow>
               (if length sn > 1600
                then JObj (dict_set d (py ''snippet'') (JStr (take 1600 sn @ ELLIPSIS)))
                else it)
           | _ \<Rightarrow> it)
      | _ \<Rightarrow> it)"

text \<open>\<open>for it in best\<close>: the elements of a list, the keys of a dict, the characters of a
  string; any other value is not iterable.\<close>

definition py_iter :: "json \<Rightarrow> py_error + json list" where
  "py_iter v =
     (case v of
        JArr xs \<Rightarrow> Inr xs
      | JObj d \<Rightarrow> Inr (map (\<lambda>kv. JStr (fst kv)) d)
      | JStr s \<Rightarrow> Inr (map (\<lambda>c. JStr [c]) s)
      | _ \<Rightarrow> Inl TypeError)"

definition best_findings :: "decoder \<Rightarrow> pystr \<Rightarrow> py_error + json list" where
  "best_findings loads text =
     (let best = fst (select_best loads (json_candidates loads text)) in
      if best \<noteq> JNull \<and> fst (score_array best) > 0 then
        (case py_iter best of
           Inr its \<Rightarrow> Inr (map trim_snippet its)
         | Inl e \<Rightarrow> Inl e)
      else Inr [])"

section \<open>The lenient engine\<close>

text \<open>
  The loop of \<open>last_array\<close> (lines 8 to 16), on \<open>(start, depth, last)\<close> (\<open>last\<close> is \<open>found\<close> here); then the parse
  of the retained span.
\<close>

fun last_scan :: "nat \<Rightarrow> pystr \<Rightarrow> nat option \<Rightarrow> nat \<Rightarrow> (nat \<times> nat) option \<Rightarrow> (nat \<times> nat) option" where
  "last_scan i [] start depth found = found"
| "last_scan i (ch # rest) start depth found =
     (if ch = LBRACKET then
        last_scan (i + 1) rest (if depth = 0 then Some i else start) (depth + 1) found
      else if ch = RBRACKET then
        (if depth > 0 then
           (case start of
              Some st \<Rightarrow>
                (if depth - 1 = 0 then last_scan (i + 1) rest start (depth - 1) (Some (st, i + 1))
                 else last_scan (i + 1) rest start (depth - 1) found)
            | None \<Rightarrow> last_scan (i + 1) rest start (depth - 1) found)
         else last_scan (i + 1) rest start depth found)
      else last_scan (i + 1) rest start depth found)"

definition last_span :: "pystr \<Rightarrow> (nat \<times> nat) option" where
  "last_span text = last_scan 0 text None 0 None"

definition last_array :: "decoder \<Rightarrow> pystr \<Rightarrow> json list option" where
  "last_array loads text =
     (case last_span text of
        None \<Rightarrow> None
      | Some (a, b) \<Rightarrow>
          (case loads (slice text a b) of
             Some (JArr arr) \<Rightarrow> Some arr
           | _ \<Rightarrow> None))"

text \<open>The loop of lines 32 to 34: the first of the keys whose value is a string.\<close>

fun first_str :: "(pystr \<times> json) list \<Rightarrow> pystr list \<Rightarrow> pystr option" where
  "first_str obj [] = None"
| "first_str obj (k # ks) = (case dict_get obj k of JStr v \<Rightarrow> Some v | _ \<Rightarrow> first_str obj ks)"

text \<open>
  \<open>try_message_content\<close>: \<open>msg.get\<close> raises \<open>AttributeError\<close> when \<open>obj["message"]\<close> is a
  true value that is not a dict; the bare \<open>except\<close> swallows it and the function returns
  \<open>None\<close>. \<open>message_attr\<close> is \<open>(obj.get("message") or {}).get("content")\<close>.
\<close>

definition message_attr :: "(pystr \<times> json) list \<Rightarrow> py_error + json" where
  "message_attr obj =
     (let msg = (if truthy (dict_get obj (py ''message'')) then dict_get obj (py ''message'') else JObj [])
      in case msg of JObj m \<Rightarrow> Inr (dict_get m (py ''content'')) | _ \<Rightarrow> Inl AttributeError)"

definition try_message_content :: "decoder \<Rightarrow> pystr \<Rightarrow> pystr option" where
  "try_message_content loads s =
     (case loads s of
        Some (JObj obj) \<Rightarrow>
          (case message_attr obj of
             Inl e \<Rightarrow> None
           | Inr (JStr c) \<Rightarrow> Some c
           | Inr _ \<Rightarrow> first_str obj [py ''output'', py ''response'', py ''content'', py ''text''])
      | _ \<Rightarrow> None)"

definition try_top_struct :: "decoder \<Rightarrow> pystr \<Rightarrow> json list option" where
  "try_top_struct loads s =
     (case loads s of
        Some (JArr arr) \<Rightarrow> Some arr
      | Some (JObj d) \<Rightarrow> (case dict_get d (py ''findings'') of JArr arr \<Rightarrow> Some arr | _ \<Rightarrow> None)
      | _ \<Rightarrow> None)"

text \<open>\<open>try_top_struct(inner) or last_array(inner)\<close>: an empty list is false.\<close>

definition inner_array :: "decoder \<Rightarrow> pystr \<Rightarrow> json list option" where
  "inner_array loads inner =
     (case try_top_struct loads inner of
        Some (x # xs) \<Rightarrow> Some (x # xs)
      | _ \<Rightarrow> last_array loads inner)"

text \<open>The array the lenient \<open>main\<close> serialises, or \<open>None\<close> when it prints the literal \<open>[]\<close>.\<close>

definition salvage_json :: "decoder \<Rightarrow> pystr \<Rightarrow> json list option" where
  "salvage_json loads s =
     (case try_top_struct loads s of
        Some arr \<Rightarrow> Some arr
      | None \<Rightarrow>
          (case (case try_message_content loads s of
                   Some inner \<Rightarrow> (if inner \<noteq> [] then inner_array loads inner else None)
                 | None \<Rightarrow> None) of
             Some arr \<Rightarrow> Some arr
           | None \<Rightarrow> last_array loads s))"

section \<open>The two programs\<close>

text \<open>
  What a run writes to standard output: one entry for each call of \<open>print\<close>.
  \<open>json.dumps\<close> belongs to Python's library and is the parameter \<open>dumps\<close>. A run that
  raises is \<open>Inl\<close>.
\<close>

type_synonym encoder = "json \<Rightarrow> pystr"

definition findings_main :: "decoder \<Rightarrow> encoder \<Rightarrow> pystr \<Rightarrow> py_error + pystr list" where
  "findings_main loads dumps s =
     (case best_findings loads s of
        Inl e \<Rightarrow> Inl e
      | Inr arr \<Rightarrow> Inr [dumps (JArr arr)])"

definition json_main :: "decoder \<Rightarrow> encoder \<Rightarrow> pystr \<Rightarrow> py_error + pystr list" where
  "json_main loads dumps s =
     (case salvage_json loads s of
        Some arr \<Rightarrow> Inr [dumps (JArr arr)]
      | None \<Rightarrow> Inr [py ''[]''])"

section \<open>A model of Python's JSON decoder\<close>

text \<open>
  The engines are parametric in the decoder. \<open>json_loads\<close> is a model of
  \<open>json.loads\<close> on a \<open>str\<close>, after CPython's scanner, for the concrete inputs of this
  theory: white space is space, tab, line feed and carriage return; a string may not hold
  a control character and knows the escapes \<^verbatim>\<open>\" \\ \/ \b \f \n \r \t \uXXXX\<close> (a surrogate
  pair is joined); a number with a fraction or an exponent is a float, any other an int;
  \<open>NaN\<close>, \<open>Infinity\<close> and \<open>-Infinity\<close> are accepted; a key that occurs twice keeps its first
  place and its last value; anything after the value but white space is an error.
  Characters are written by their code points: \<open>"\<close> 34, \<open>\\<close> 92, \<open>{\<close> 123, \<open>}\<close> 125,
  \<open>[\<close> 91, \<open>]\<close> 93, \<open>,\<close> 44, \<open>:\<close> 58, \<open>-\<close> 45, \<open>+\<close> 43, \<open>.\<close> 46, \<open>0\<close> 48, \<open>9\<close> 57.
  The recursion limit of the interpreter and the limit on the digits of an int are not
  modelled.
\<close>

definition is_ws :: "nat \<Rightarrow> bool" where
  "is_ws c = (c = 32 \<or> c = 9 \<or> c = 10 \<or> c = 13)"

definition skip_ws :: "pystr \<Rightarrow> pystr" where
  "skip_ws s = dropWhile is_ws s"

definition is_digit :: "nat \<Rightarrow> bool" where
  "is_digit c = (48 \<le> c \<and> c \<le> 57)"

definition digits_val :: "pystr \<Rightarrow> int" where
  "digits_val ds = foldl (\<lambda>a c. 10 * a + int (c - 48)) 0 ds"

text \<open>A hexadecimal digit: \<open>0\<close> to \<open>9\<close>, \<open>a\<close> to \<open>f\<close>, \<open>A\<close> to \<open>F\<close>.\<close>

definition hex_val :: "nat \<Rightarrow> nat option" where
  "hex_val c =
     (if 48 \<le> c \<and> c \<le> 57 then Some (c - 48)
      else if 97 \<le> c \<and> c \<le> 102 then Some (c - 87)
      else if 65 \<le> c \<and> c \<le> 70 then Some (c - 55)
      else None)"

fun hex4 :: "pystr \<Rightarrow> (nat \<times> pystr) option" where
  "hex4 (a # b # c # d # s) =
     (case (hex_val a, hex_val b, hex_val c, hex_val d) of
        (Some x, Some y, Some z, Some w) \<Rightarrow> Some (4096 * x + 256 * y + 16 * z + w, s)
      | _ \<Rightarrow> None)"
| "hex4 s = None"

text \<open>The character after a backslash: \<^verbatim>\<open>" \ / b f n r t\<close>.\<close>

definition escape_char :: "nat \<Rightarrow> nat option" where
  "escape_char e =
     (if e = 34 then Some 34
      else if e = 92 then Some 92
      else if e = 47 then Some 47
      else if e = 98 then Some 8
      else if e = 102 then Some 12
      else if e = 110 then Some 10
      else if e = 114 then Some 13
      else if e = 116 then Some 9
      else None)"

text \<open>
  The text after \<^verbatim>\<open>\u\<close>: four hexadecimal digits; a high surrogate followed by
  \<^verbatim>\<open>\u\<close> and a low surrogate is joined with it.
\<close>

definition unicode_escape :: "pystr \<Rightarrow> (nat \<times> pystr) option" where
  "unicode_escape s =
     (case hex4 s of
        None \<Rightarrow> None
      | Some (u, r) \<Rightarrow>
          (if 55296 \<le> u \<and> u \<le> 56319 then
             (case r of
                b # x # r' \<Rightarrow>
                  (if b = 92 \<and> x = 117 then
                     (case hex4 r' of
                        None \<Rightarrow> None
                      | Some (u2, r'') \<Rightarrow>
                          (if 56320 \<le> u2 \<and> u2 \<le> 57343
                           then Some (65536 + (u - 55296) * 1024 + (u2 - 56320), r'')
                           else Some (u, r)))
                   else Some (u, r))
              | _ \<Rightarrow> Some (u, r))
           else Some (u, r)))"

lemma hex4_length: "hex4 s = Some (u, r) \<Longrightarrow> length s = length r + 4"
  by (cases s rule: hex4.cases) (auto split: option.splits)

lemma unicode_escape_length: "unicode_escape s = Some (u, r) \<Longrightarrow> length r < length s"
  by (auto simp: unicode_escape_def split: option.splits if_splits list.splits
      dest!: hex4_length)

text \<open>The text after the opening quote: the decoded string and what follows the closing
  quote.\<close>

function scanstring :: "pystr \<Rightarrow> pystr \<Rightarrow> (pystr \<times> pystr) option" where
  "scanstring [] acc = None"
| "scanstring (c # s) acc =
     (if c = 34 then Some (acc, s)
      else if c = 92 then
        (case s of
           [] \<Rightarrow> None
         | e # s' \<Rightarrow>
             (if e = 117 then
                (case unicode_escape s' of
                   None \<Rightarrow> None
                 | Some (u, r) \<Rightarrow> scanstring r (acc @ [u]))
              else
                (case escape_char e of
                   None \<Rightarrow> None
                 | Some ch \<Rightarrow> scanstring s' (acc @ [ch]))))
      else if c < 32 then None
      else scanstring s (acc @ [c]))"
  by pat_completeness auto
termination
  by (relation "measure (\<lambda>(s, acc). length s)") (auto dest: unicode_escape_length)

definition starts_with :: "string \<Rightarrow> pystr \<Rightarrow> bool" where
  "starts_with w s = (take (length w) s = py w)"

text \<open>The exponent of a number, \<^verbatim>\<open>[eE][-+]?[0-9]+\<close>, if there is one.\<close>

definition parse_exponent :: "pystr \<Rightarrow> (int \<times> pystr) option" where
  "parse_exponent s =
     (case s of
        [] \<Rightarrow> None
      | c # r \<Rightarrow>
          (if c = 101 \<or> c = 69 then
             (let neg = (r \<noteq> [] \<and> hd r = 45);
                  r' = (if r \<noteq> [] \<and> (hd r = 43 \<or> hd r = 45) then tl r else r);
                  eds = takeWhile is_digit r'
              in if eds = [] then None
                 else Some (if neg then - digits_val eds else digits_val eds, drop (length eds) r'))
           else None))"

text \<open>\<^verbatim>\<open>-?(0|[1-9][0-9]*)(\.[0-9]+)?([eE][-+]?[0-9]+)?\<close>\<close>

definition parse_number :: "pystr \<Rightarrow> (json \<times> pystr) option" where
  "parse_number s =
     (let neg = (s \<noteq> [] \<and> hd s = 45);
          s1 = (if neg then tl s else s);
          ds = (case s1 of
                  [] \<Rightarrow> []
                | c # r \<Rightarrow> if c = 48 then [c] else if is_digit c then c # takeWhile is_digit r else []);
          s2 = drop (length ds) s1;
          frac = (case s2 of [] \<Rightarrow> [] | c # r \<Rightarrow> if c = 46 then takeWhile is_digit r else []);
          s3 = (if frac = [] then s2 else drop (Suc (length frac)) s2);
          sgn = (\<lambda>n. if neg then - n else n)
      in if ds = [] then None
         else
           (case parse_exponent s3 of
              None \<Rightarrow>
                (if frac = [] then Some (JInt (sgn (digits_val ds)), s2)
                 else Some (JFloat (Dec (sgn (digits_val (ds @ frac))) (- int (length frac))), s3))
            | Some (e, s4) \<Rightarrow>
                Some (JFloat (Dec (sgn (digits_val (ds @ frac))) (e - int (length frac))), s4)))"

text \<open>
  The recursive descent of the scanner. The first argument bounds the depth of the
  recursion and the number of elements; \<open>json_loads\<close> starts it above the length of the
  text, which it cannot exhaust since every call consumes a character.
\<close>

fun scan_once :: "nat \<Rightarrow> pystr \<Rightarrow> (json \<times> pystr) option"
  and parse_array :: "nat \<Rightarrow> pystr \<Rightarrow> json list \<Rightarrow> (json \<times> pystr) option"
  and parse_object :: "nat \<Rightarrow> pystr \<Rightarrow> (pystr \<times> json) list \<Rightarrow> (json \<times> pystr) option" where
  "scan_once 0 s = None"
| "scan_once (Suc n) [] = None"
| "scan_once (Suc n) (c # r) =
     (if c = 34 then
        (case scanstring r [] of None \<Rightarrow> None | Some (str, r') \<Rightarrow> Some (JStr str, r'))
      else if c = 123 then
        (case skip_ws r of
           [] \<Rightarrow> None
         | c' # r' \<Rightarrow> if c' = 125 then Some (JObj [], r') else parse_object n (c' # r') [])
      else if c = 91 then
        (case skip_ws r of
           [] \<Rightarrow> None
         | c' # r' \<Rightarrow> if c' = 93 then Some (JArr [], r') else parse_array n (c' # r') [])
      else if starts_with ''null'' (c # r) then Some (JNull, drop 4 (c # r))
      else if starts_with ''true'' (c # r) then Some (JBool True, drop 4 (c # r))
      else if starts_with ''false'' (c # r) then Some (JBool False, drop 5 (c # r))
      else if starts_with ''NaN'' (c # r) then Some (JFloat NaN, drop 3 (c # r))
      else if starts_with ''Infinity'' (c # r) then Some (JFloat PosInf, drop 8 (c # r))
      else if starts_with ''-Infinity'' (c # r) then Some (JFloat NegInf, drop 9 (c # r))
      else parse_number (c # r))"
| "parse_array 0 s acc = None"
| "parse_array (Suc n) s acc =
     (case scan_once n s of
        None \<Rightarrow> None
      | Some (v, r) \<Rightarrow>
          (case skip_ws r of
             [] \<Rightarrow> None
           | c # r' \<Rightarrow>
               if c = 93 then Some (JArr (acc @ [v]), r')
               else if c = 44 then parse_array n (skip_ws r') (acc @ [v])
               else None))"
| "parse_object 0 s acc = None"
| "parse_object (Suc n) s acc =
     (case s of
        [] \<Rightarrow> None
      | q # s' \<Rightarrow>
          if q \<noteq> 34 then None
          else
            (case scanstring s' [] of
               None \<Rightarrow> None
             | Some (key, r) \<Rightarrow>
                 (case skip_ws r of
                    [] \<Rightarrow> None
                  | c # r' \<Rightarrow>
                      if c \<noteq> 58 then None
                      else
                        (case scan_once n (skip_ws r') of
                           None \<Rightarrow> None
                         | Some (v, r2) \<Rightarrow>
                             (case skip_ws r2 of
                                [] \<Rightarrow> None
                              | c2 # r3 \<Rightarrow>
                                  if c2 = 125 then Some (JObj (dict_set acc key v), r3)
                                  else if c2 = 44 then parse_object n (skip_ws r3) (dict_set acc key v)
                                  else None)))))"

definition json_loads :: decoder where
  "json_loads s =
     (case scan_once (Suc (length s)) (skip_ws s) of
        None \<Rightarrow> None
      | Some (v, r) \<Rightarrow> if skip_ws r = [] then Some v else None)"

text \<open>The JSON string literal of a text that has no control characters: the text between
  quotes, each quote and backslash escaped by a backslash.\<close>

definition json_quote :: "pystr \<Rightarrow> pystr" where
  "json_quote s = [34] @ concat (map (\<lambda>c. if c = 34 \<or> c = 92 then [92, c] else [c]) s) @ [34]"

section \<open>Notions of the specification\<close>

text \<open>The array a candidate is scored as: loaded, then unwrapped (lines 77 to 81).\<close>

definition cand_array :: "decoder \<Rightarrow> json \<Rightarrow> json" where
  "cand_array loads cand = unwrap (load_json loads cand)"

definition candidate_arrays :: "decoder \<Rightarrow> pystr \<Rightarrow> json list" where
  "candidate_arrays loads text = map (cand_array loads) (json_candidates loads text)"

section \<open>Example inputs\<close>

text \<open>The record of the specification's wrapper example, as text and as value.\<close>

definition RECORD_TEXT :: pystr where
  "RECORD_TEXT = py ''{\"path\":\"a.c\",\"cwe_guess\":\"CWE-1\",\"severity\":\"high\",\"confidence\":0.9,\"lines\":[1,2],\"snippet\":\"x\",\"evidence\":\"e\",\"reasoning\":\"r\",\"fix\":\"f\"}''"

definition RECORD :: json where
  "RECORD = JObj
     [(py ''path'', JStr (py ''a.c'')), (py ''cwe_guess'', JStr (py ''CWE-1'')),
      (py ''severity'', JStr (py ''high'')), (py ''confidence'', JFloat (Dec 9 (-1))),
      (py ''lines'', JArr [JInt 1, JInt 2]), (py ''snippet'', JStr (py ''x'')),
      (py ''evidence'', JStr (py ''e'')), (py ''reasoning'', JStr (py ''r'')),
      (py ''fix'', JStr (py ''f''))]"

text \<open>The JSON array of that one record.\<close>

definition ARRAY_TEXT :: pystr where
  "ARRAY_TEXT = py ''['' @ RECORD_TEXT @ py '']''"


section \<open>Bracket spans, in the words of the specification\<close>

text \<open>
  The number of open brackets after a text has been scanned: a \<open>[\<close> opens one, a \<open>]\<close>
  closes the last one still open, if there is one.
\<close>

definition depth_step :: "nat \<Rightarrow> nat \<Rightarrow> nat" where
  "depth_step d c = (if c = LBRACKET then d + 1 else if c = RBRACKET then d - 1 else d)"

definition open_depth :: "pystr \<Rightarrow> nat" where
  "open_depth s = foldl depth_step 0 s"

text \<open>The positions of the text where a \<open>]\<close> closes a \<open>[\<close>, in increasing order.\<close>

definition closes :: "pystr \<Rightarrow> nat \<Rightarrow> bool" where
  "closes text j = (text ! j = RBRACKET \<and> 0 < open_depth (take j text))"

definition closers :: "pystr \<Rightarrow> nat list" where
  "closers text = filter (closes text) [0..<length text]"

text \<open>A text whose brackets match: starting with \<open>d\<close> brackets open, no \<open>]\<close> finds none
  open and none is open at the end.\<close>

fun bal :: "nat \<Rightarrow> pystr \<Rightarrow> bool" where
  "bal d [] = (d = 0)"
| "bal d (c # s) =
     (if c = LBRACKET then bal (d + 1) s
      else if c = RBRACKET then d > 0 \<and> bal (d - 1) s
      else bal d s)"

text \<open>The span \<open>text[a:b]\<close> runs from a \<open>[\<close> to the \<open>]\<close> that closes it.\<close>

definition bracket_span :: "pystr \<Rightarrow> nat \<times> nat \<Rightarrow> bool" where
  "bracket_span text p =
     (case p of (a, b) \<Rightarrow>
        a < b \<and> b \<le> length text \<and> text ! a = LBRACKET \<and> text ! (b - 1) = RBRACKET \<and>
        bal 0 (slice text (a + 1) (b - 1)))"

text \<open>The scan of lines 41 to 48 with the spans it cuts out, \<open>(start, i + 1)\<close>, in place of
  the fragments.\<close>

fun span_scan :: "nat \<Rightarrow> pystr \<Rightarrow> nat list \<Rightarrow> (nat \<times> nat) list \<Rightarrow> (nat \<times> nat) list" where
  "span_scan i [] stack spans = spans"
| "span_scan i (ch # rest) stack spans =
     (if ch = LBRACKET then span_scan (i + 1) rest (i # stack) spans
      else if ch = RBRACKET \<and> stack \<noteq> [] then
        (case stack of
           start # stack' \<Rightarrow>
             (let spans' = spans @ [(start, i + 1)] in
              if length spans' \<ge> 40 then spans'
              else span_scan (i + 1) rest stack' spans')
         | [] \<Rightarrow> spans)
      else span_scan (i + 1) rest stack spans)"

text \<open>The stack of the scan over the scanned text \<open>pre\<close>: each entry is the position of a
  \<open>[\<close>, what follows it is matched, and the entries below it are a stack for what
  precedes it.\<close>

fun stack_ok :: "pystr \<Rightarrow> nat list \<Rightarrow> bool" where
  "stack_ok pre [] = True"
| "stack_ok pre (s # st) =
     (s < length pre \<and> pre ! s = LBRACKET \<and> bal 0 (drop (Suc s) pre) \<and> stack_ok (take s pre) st)"

text \<open>A hundred disjoint bracket spans.\<close>

definition HUNDRED_SPANS :: pystr where
  "HUNDRED_SPANS = concat (replicate 100 (py ''[]''))"

section \<open>Post-processing, in the words of the specification\<close>

text \<open>
  \<open>snippet_cut x y\<close>: \<open>y\<close> is the element the output holds for the element \<open>x\<close> of the
  accepted result. For a mapping whose \<open>snippet\<close> is a string of more than 1600 characters,
  \<open>y\<close> is a mapping with the same keys in the same order, its \<open>snippet\<close> the first 1600
  characters followed by the marker, every other key with the value it has in \<open>x\<close>. For
  any other element, \<open>y\<close> is \<open>x\<close>.
\<close>

definition snippet_cut :: "json \<Rightarrow> json \<Rightarrow> bool" where
  "snippet_cut x y =
     (case x of
        JObj d \<Rightarrow>
          (case dict_get d (py ''snippet'') of
             JStr sn \<Rightarrow>
               (if length sn > 1600 then
                  (case y of
                     JObj d' \<Rightarrow>
                       map fst d' = map fst d \<and>
                       dict_get d' (py ''snippet'') = JStr (take 1600 sn @ ELLIPSIS) \<and>
                       list_all (\<lambda>k. k = py ''snippet'' \<or> map_of d' k = map_of d k) (map fst d)
                   | _ \<Rightarrow> False)
                else y = x)
           | _ \<Rightarrow> y = x)
      | _ \<Rightarrow> y = x)"

text \<open>
  The loop of lines 88 to 95 over a store, for what it does to the objects it is given.
  The store is the list of the objects; a reference is a position in it. \<open>best\<close> and
  \<open>out\<close> are lists of references. \<open>it.copy()\<close> puts a new object at the end of the
  store, and the assignment to \<open>it["snippet"]\<close> changes that new object.
\<close>

fun trim_loop :: "json list \<Rightarrow> nat list \<Rightarrow> nat list \<Rightarrow> json list \<times> nat list" where
  "trim_loop h [] out = (h, out)"
| "trim_loop h (it # best) out =
     (case h ! it of
        JObj d \<Rightarrow>
          (case dict_get d (py ''snippet'') of
             JStr sn \<Rightarrow>
               (if length sn > 1600 then
                  (let new = length h;
                       h' = h @ [JObj d];
                       h'' = h'[new := JObj (dict_set d (py ''snippet'') (JStr (take 1600 sn @ ELLIPSIS)))]
                   in trim_loop h'' best (out @ [new]))
                else trim_loop h best (out @ [it]))
           | _ \<Rightarrow> trim_loop h best (out @ [it]))
      | _ \<Rightarrow> trim_loop h best (out @ [it]))"

text \<open>A record with a snippet of 2000 characters.\<close>

definition LONG_RECORD :: json where
  "LONG_RECORD = JObj
     [(py ''path'', JStr (py ''a.c'')), (py ''cwe_guess'', JStr (py ''CWE-1'')),
      (py ''severity'', JStr (py ''high'')), (py ''confidence'', JFloat (Dec 9 (-1))),
      (py ''lines'', JArr [JInt 1, JInt 2]), (py ''snippet'', JStr (replicate 2000 120)),
      (py ''evidence'', JStr (py ''e'')), (py ''reasoning'', JStr (py ''r'')),
      (py ''fix'', JStr (py ''f''))]"

text \<open>That record with its snippet cut.\<close>

definition CUT_RECORD :: json where
  "CUT_RECORD = JObj
     [(py ''path'', JStr (py ''a.c'')), (py ''cwe_guess'', JStr (py ''CWE-1'')),
      (py ''severity'', JStr (py ''high'')), (py ''confidence'', JFloat (Dec 9 (-1))),
      (py ''lines'', JArr [JInt 1, JInt 2]), (py ''snippet'', JStr (replicate 1600 120 @ [8230])),
      (py ''evidence'', JStr (py ''e'')), (py ''reasoning'', JStr (py ''r'')),
      (py ''fix'', JStr (py ''f''))]"

section \<open>The last top-level span, in the words of the specification\<close>

text \<open>
  A \<open>]\<close> at position \<open>i\<close> closes a top-level span when exactly one bracket is open before
  it, so that the depth returns to zero; a \<open>[\<close> at position \<open>j\<close> opens one when none is
  open before it. The most recently closed top-level span ends after the last such \<open>]\<close>
  and starts at the last such \<open>[\<close> before it.
\<close>

definition top_closer :: "pystr \<Rightarrow> nat \<Rightarrow> bool" where
  "top_closer s i = (s ! i = RBRACKET \<and> open_depth (take i s) = 1)"

definition top_opener :: "pystr \<Rightarrow> nat \<Rightarrow> bool" where
  "top_opener s j = (s ! j = LBRACKET \<and> open_depth (take j s) = 0)"

definition spec_span_upto :: "pystr \<Rightarrow> nat \<Rightarrow> (nat \<times> nat) option" where
  "spec_span_upto s n =
     (let cs = filter (top_closer s) [0..<n] in
      if cs = [] then None
      else Some (last (filter (top_opener s) [0..<last cs]), Suc (last cs)))"

definition spec_last_span :: "pystr \<Rightarrow> (nat \<times> nat) option" where
  "spec_last_span s = spec_span_upto s (length s)"

text \<open>Prose around one bracketed span, and prose without brackets.\<close>

definition PROSE_SPAN :: pystr where
  "PROSE_SPAN = py ''The lines are [1,2,3], I think.''"

definition PROSE :: pystr where
  "PROSE = py ''I found no issue.''"

text \<open>The wrapper example of the specification: the array text as the \<open>content\<close> string
  of a \<open>message\<close> object.\<close>

definition WRAPPED_TEXT :: pystr where
  "WRAPPED_TEXT = py ''{\"message\": {\"content\": '' @ json_quote ARRAY_TEXT @ py ''}}''"

section \<open>The envelope unwrap, in the words of the specification\<close>

text \<open>
  The text an envelope holds under the wrapper key \<open>k\<close>: the string \<open>content\<close> field of
  an object value, or a string value itself.
\<close>

definition envelope_payload :: "(pystr \<times> json) list \<Rightarrow> pystr \<Rightarrow> pystr option" where
  "envelope_payload obj k =
     (case map_of obj k of
        Some (JObj v) \<Rightarrow> (case map_of v (py ''content'') of Some (JStr c) \<Rightarrow> Some c | _ \<Rightarrow> None)
      | Some (JStr w) \<Rightarrow> Some w
      | _ \<Rightarrow> None)"

text \<open>An array of one valid record whose \<open>evidence\<close> field holds an array of two
  valid records.\<close>

definition NESTED_TEXT :: pystr where
  "NESTED_TEXT =
     py ''[{\"path\":\"a.c\",\"cwe_guess\":\"CWE-1\",\"severity\":\"high\",\"confidence\":0.9,\"lines\":[1,2],\"snippet\":\"x\",\"evidence\":[''
       @ RECORD_TEXT @ py '','' @ RECORD_TEXT @ py ''],\"reasoning\":\"r\",\"fix\":\"f\"}]''"

definition OUTER_RECORD :: json where
  "OUTER_RECORD = JObj
     [(py ''path'', JStr (py ''a.c'')), (py ''cwe_guess'', JStr (py ''CWE-1'')),
      (py ''severity'', JStr (py ''high'')), (py ''confidence'', JFloat (Dec 9 (-1))),
      (py ''lines'', JArr [JInt 1, JInt 2]), (py ''snippet'', JStr (py ''x'')),
      (py ''evidence'', JArr [RECORD, RECORD]), (py ''reasoning'', JStr (py ''r'')),
      (py ''fix'', JStr (py ''f''))]"

section \<open>Candidate arrays, in the words of the specification\<close>

text \<open>
  The array a candidate stands for: the candidate parsed if it is a text (nothing if it
  does not parse, or if it is neither a text, an array nor an object), and of an object
  that holds an array under \<open>findings\<close>, that array.
\<close>

definition spec_array :: "decoder \<Rightarrow> json \<Rightarrow> json" where
  "spec_array loads cand =
     (let v = (case cand of
                 JStr s \<Rightarrow> (case loads s of Some w \<Rightarrow> w | None \<Rightarrow> JNull)
               | JArr xs \<Rightarrow> cand
               | JObj d \<Rightarrow> cand
               | _ \<Rightarrow> JNull)
      in case v of
           JObj d \<Rightarrow> (case map_of d (py ''findings'') of Some (JArr xs) \<Rightarrow> JArr xs | _ \<Rightarrow> v)
         | _ \<Rightarrow> v)"

definition spec_arrays :: "decoder \<Rightarrow> pystr \<Rightarrow> json list" where
  "spec_arrays loads text = map (spec_array loads) (json_candidates loads text)"

text \<open>An element the post-processing leaves as it is: anything but a mapping whose
  \<open>snippet\<close> is a string of more than 1600 characters.\<close>

definition short_snippet :: "json \<Rightarrow> bool" where
  "short_snippet x =
     (case x of
        JObj d \<Rightarrow> (case map_of d (py ''snippet'') of Some (JStr sn) \<Rightarrow> length sn \<le> 1600 | _ \<Rightarrow> True)
      | _ \<Rightarrow> True)"



section \<open>Matches of the findings pattern, in the words of the specification\<close>






section \<open>Scoring\<close>

lemma has_required_iff: "has_required d \<longleftrightarrow> set REQUIRED \<subseteq> fst ` set d"
  by (auto simp: has_required_def list_all_iff map_of_eq_None_iff)

lemma list_truthy_iff: "is_list v \<and> truthy v \<longleftrightarrow> nonempty_list v"
  by (cases v rule: nonempty_list.cases) auto

lemma count_ok_eq: "count_ok it ok = (if py_valid_record it then ok + 1 else ok)"
proof (cases it)
  case (JObj d)
  then show ?thesis
    using list_truthy_iff [of "dict_get d (py ''lines'')"]
    by (auto simp: count_ok_def py_valid_record_def record_shape_def has_required_iff)
qed (simp_all add: count_ok_def py_valid_record_def record_shape_def)

lemma fold_count_ok: "fold count_ok xs ok = ok + int (length (filter py_valid_record xs))"
  by (induction xs arbitrary: ok) (simp_all add: count_ok_eq)

lemma py_valid_is_dict: "py_valid_record it \<Longrightarrow> is_dict it"
  by (cases it) (simp_all add: py_valid_record_def record_shape_def)

lemma filter_valid_dicts: "filter py_valid_record (filter is_dict xs) = filter py_valid_record xs"
  by (induction xs) (auto dest: py_valid_is_dict)

lemma valid_and_dict: "(\<lambda>x. is_dict x \<and> py_valid_record x) = py_valid_record"
  by (auto dest: py_valid_is_dict)

lemma score_array_list:
  "score_array (JArr xs) =
     (int (length (filter py_valid_record xs)), int (length (filter is_dict xs)))"
proof (cases "filter is_dict xs = []")
  case True
  then have "filter py_valid_record (filter is_dict xs) = []" by simp
  then have "filter py_valid_record xs = []" by (simp only: filter_valid_dicts)
  with True show ?thesis by (simp add: score_array_def)
next
  case False
  then show ?thesis
    by (simp add: score_array_def Let_def fold_count_ok valid_and_dict)
qed

lemma score_array_not_list: "\<not> is_list v \<Longrightarrow> score_array v = (-1, 0)"
  by (cases v) (simp_all add: score_array_def)

text \<open>
  Claim C3, as the code has it. \<open>score_array\<close> is a total function of its argument alone.
  On a list it returns the number of elements that are Finding Records by the code's
  test (a mapping with the nine required keys, \<open>path\<close>, \<open>cwe_guess\<close> and \<open>severity\<close>
  strings, \<open>confidence\<close> an \<open>int\<close>, a \<open>float\<close> or a \<open>bool\<close>, \<open>lines\<close> a non-empty list)
  paired with the number of elements that are mappings; on every other value it returns
  \<open>(-1, 0)\<close>. In the lexicographic order the score \<open>(3, 5)\<close> is greater than \<open>(1, 1)\<close>.
\<close>

theorem score_array_counts:
  "score_array v =
     (case v of
        JArr xs \<Rightarrow> (int (length (filter py_valid_record xs)), int (length (filter is_dict xs)))
      | _ \<Rightarrow> (-1, 0))
   \<and> tuple_gt (3, 5) (1, 1) \<and> \<not> tuple_gt (1, 1) (3, 5)"
  by (cases v) (simp_all add: score_array_list score_array_not_list)

text \<open>
  Claim C3 as the specification words it (\<open>confidence\<close> numeric) fails: a record whose
  \<open>confidence\<close> is the JSON value \<open>true\<close> is counted, since \<open>isinstance(True, (int, float))\<close>
  holds in Python.
\<close>

theorem score_array_bool_confidence:
  "score_array (JArr [JObj
        [(py ''path'', JStr (py ''a.c'')), (py ''cwe_guess'', JStr (py ''CWE-1'')),
         (py ''severity'', JStr (py ''high'')), (py ''confidence'', JBool True),
         (py ''lines'', JArr [JInt 1]), (py ''snippet'', JStr (py ''x'')),
         (py ''evidence'', JStr (py ''e'')), (py ''reasoning'', JStr (py ''r'')),
         (py ''fix'', JStr (py ''f''))]]) = (1, 1)
   \<and> \<not> spec_valid_record (JObj
        [(py ''path'', JStr (py ''a.c'')), (py ''cwe_guess'', JStr (py ''CWE-1'')),
         (py ''severity'', JStr (py ''high'')), (py ''confidence'', JBool True),
         (py ''lines'', JArr [JInt 1]), (py ''snippet'', JStr (py ''x'')),
         (py ''evidence'', JStr (py ''e'')), (py ''reasoning'', JStr (py ''r'')),
         (py ''fix'', JStr (py ''f''))])"
  by (simp add: score_array_def count_ok_def has_required_def REQUIRED_def dict_get_def py_def
      spec_valid_record_def record_shape_def)

section \<open>Selection\<close>

lemma tuple_gt_irrefl: "\<not> tuple_gt a a"
  by (cases a) simp

lemma tuple_gt_trans: "tuple_gt a b \<Longrightarrow> tuple_gt b c \<Longrightarrow> tuple_gt a c"
  by (cases a; cases b; cases c) auto

lemma tuple_gt_trans2: "tuple_gt a b \<Longrightarrow> \<not> tuple_gt c b \<Longrightarrow> tuple_gt a c"
  by (cases a; cases b; cases c) auto

lemma tuple_gt_asym: "tuple_gt a b \<Longrightarrow> \<not> tuple_gt b a"
  by (cases a; cases b) auto

lemma select_step_alt:
  "select_step loads st cand =
     (if tuple_gt (score_array (cand_array loads cand)) (snd st)
      then (cand_array loads cand, score_array (cand_array loads cand)) else st)"
  by (simp add: select_step_def cand_array_def Let_def)

text \<open>The loop invariant: the retained pair is the start pair, or the first of the maxima.\<close>

lemma select_fold:
  "let r = foldl (select_step loads) (b, bs) cs;
       arrs = map (cand_array loads) cs in
     (\<forall>j < length arrs. \<not> tuple_gt (score_array (arrs ! j)) (snd r)) \<and>
     ((r = (b, bs)) \<or>
      (\<exists>i < length arrs. r = (arrs ! i, score_array (arrs ! i)) \<and> tuple_gt (snd r) bs \<and>
          (\<forall>j < i. tuple_gt (snd r) (score_array (arrs ! j)))))"
proof (induction cs rule: rev_induct)
  case Nil
  then show ?case by simp
next
  case (snoc c cs)
  define r where "r = foldl (select_step loads) (b, bs) cs"
  define arrs where "arrs = map (cand_array loads) cs"
  define a where "a = cand_array loads c"
  have len: "length arrs = length cs" by (simp add: arrs_def)
  have nogt: "\<forall>j < length arrs. \<not> tuple_gt (score_array (arrs ! j)) (snd r)"
    and alt: "r = (b, bs) \<or>
      (\<exists>i < length arrs. r = (arrs ! i, score_array (arrs ! i)) \<and> tuple_gt (snd r) bs \<and>
          (\<forall>j < i. tuple_gt (snd r) (score_array (arrs ! j))))"
    using snoc.IH unfolding r_def arrs_def Let_def by blast+
  have arrs': "map (cand_array loads) (cs @ [c]) = arrs @ [a]"
    by (simp add: arrs_def a_def)
  have r': "foldl (select_step loads) (b, bs) (cs @ [c]) =
      (if tuple_gt (score_array a) (snd r) then (a, score_array a) else r)"
    by (simp add: r_def a_def select_step_alt)
  show ?case
  proof (cases "tuple_gt (score_array a) (snd r)")
    case True
    have 1: "\<forall>j < length (arrs @ [a]). \<not> tuple_gt (score_array ((arrs @ [a]) ! j)) (score_array a)"
    proof (intro allI impI)
      fix j assume j: "j < length (arrs @ [a])"
      show "\<not> tuple_gt (score_array ((arrs @ [a]) ! j)) (score_array a)"
      proof (cases "j < length arrs")
        case True
        with nogt have "\<not> tuple_gt (score_array (arrs ! j)) (snd r)" by blast
        with \<open>tuple_gt (score_array a) (snd r)\<close>
        have "tuple_gt (score_array a) (score_array (arrs ! j))" by (rule tuple_gt_trans2)
        then show ?thesis using True by (simp add: nth_append tuple_gt_asym)
      next
        case False
        with j have "j = length arrs" by simp
        then show ?thesis by (simp add: tuple_gt_irrefl)
      qed
    qed
    have 2: "tuple_gt (score_array a) bs"
      using alt True by (auto intro: tuple_gt_trans)
    have 3: "\<forall>j < length arrs. tuple_gt (score_array a) (score_array ((arrs @ [a]) ! j))"
      using nogt True by (auto simp: nth_append intro: tuple_gt_trans2)
    have "\<exists>i < length (arrs @ [a]). (a, score_array a) = ((arrs @ [a]) ! i, score_array ((arrs @ [a]) ! i)) \<and>
        tuple_gt (score_array a) bs \<and> (\<forall>j < i. tuple_gt (score_array a) (score_array ((arrs @ [a]) ! j)))"
      using 2 3 by (intro exI [of _ "length arrs"]) simp
    with 1 True show ?thesis
      unfolding Let_def r' arrs' by simp
  next
    case False
    have 1: "\<forall>j < length (arrs @ [a]). \<not> tuple_gt (score_array ((arrs @ [a]) ! j)) (snd r)"
      using nogt False by (auto simp: nth_append less_Suc_eq)
    have 2: "r = (b, bs) \<or>
      (\<exists>i < length (arrs @ [a]). r = ((arrs @ [a]) ! i, score_array ((arrs @ [a]) ! i)) \<and> tuple_gt (snd r) bs \<and>
          (\<forall>j < i. tuple_gt (snd r) (score_array ((arrs @ [a]) ! j))))"
      using alt
    proof
      assume "r = (b, bs)" then show ?thesis by simp
    next
      assume "\<exists>i < length arrs. r = (arrs ! i, score_array (arrs ! i)) \<and> tuple_gt (snd r) bs \<and>
          (\<forall>j < i. tuple_gt (snd r) (score_array (arrs ! j)))"
      then obtain i where i: "i < length arrs" "r = (arrs ! i, score_array (arrs ! i))"
        "tuple_gt (snd r) bs" "\<forall>j < i. tuple_gt (snd r) (score_array (arrs ! j))" by blast
      have "i < length (arrs @ [a]) \<and> r = ((arrs @ [a]) ! i, score_array ((arrs @ [a]) ! i)) \<and> tuple_gt (snd r) bs \<and>
          (\<forall>j < i. tuple_gt (snd r) (score_array ((arrs @ [a]) ! j)))"
        using i by (auto simp: nth_append)
      then show ?thesis by blast
    qed
    from 1 2 False show ?thesis
      unfolding Let_def r' arrs' by simp
  qed
qed


lemma tuple_gt_fst: "\<not> tuple_gt a b \<Longrightarrow> fst a \<le> fst b"
  by (cases a; cases b) auto

lemma score_pos_list: "0 < fst (score_array v) \<Longrightarrow> \<exists>xs. v = JArr xs"
  by (cases v) (simp_all add: score_array_def)

text \<open>What the loop retains and what the engine returns, on the arrays as the code computes
  them.\<close>

lemma select_best_first_max:
  "let arrs = candidate_arrays loads text;
       best = fst (select_best loads (json_candidates loads text))
   in if (\<exists>j < length arrs. 0 < fst (score_array (arrs ! j))) then
        (\<exists>i < length arrs. \<exists>xs.
            (\<forall>j < i. tuple_gt (score_array (arrs ! i)) (score_array (arrs ! j))) \<and>
            (\<forall>j < length arrs. \<not> tuple_gt (score_array (arrs ! j)) (score_array (arrs ! i))) \<and>
            0 < fst (score_array (arrs ! i)) \<and>
            best = arrs ! i \<and> arrs ! i = JArr xs \<and>
            best_findings loads text = Inr (map trim_snippet xs))
      else best_findings loads text = Inr []"
proof -
  define cs where "cs = json_candidates loads text"
  define arrs where "arrs = map (cand_array loads) cs"
  define r where "r = foldl (select_step loads) (JNull, (-1, 0)) cs"
  have arrs_eq: "candidate_arrays loads text = arrs"
    by (simp add: candidate_arrays_def arrs_def cs_def)
  have best_eq: "select_best loads (json_candidates loads text) = r"
    by (simp add: select_best_def r_def cs_def)
  have bf: "best_findings loads text =
      (if fst r \<noteq> JNull \<and> 0 < fst (score_array (fst r)) then
         (case py_iter (fst r) of Inr its \<Rightarrow> Inr (map trim_snippet its) | Inl e \<Rightarrow> Inl e)
       else Inr [])"
    by (simp add: best_findings_def best_eq Let_def)
  have nogt: "\<forall>j < length arrs. \<not> tuple_gt (score_array (arrs ! j)) (snd r)"
    and alt: "r = (JNull, (-1, 0)) \<or>
      (\<exists>i < length arrs. r = (arrs ! i, score_array (arrs ! i)) \<and> tuple_gt (snd r) (-1, 0) \<and>
          (\<forall>j < i. tuple_gt (snd r) (score_array (arrs ! j))))"
    using select_fold [of loads JNull "(-1, 0)" cs] unfolding r_def arrs_def Let_def by blast+
  show ?thesis
  proof (cases "\<exists>j < length arrs. 0 < fst (score_array (arrs ! j))")
    case True
    then obtain j where j: "j < length arrs" "0 < fst (score_array (arrs ! j))" by blast
    from nogt j have "fst (score_array (arrs ! j)) \<le> fst (snd r)"
      by (auto dest: tuple_gt_fst)
    with j have pos: "0 < fst (snd r)" by simp
    then have "r \<noteq> (JNull, (-1, 0))" by auto
    with alt obtain i where i: "i < length arrs" "r = (arrs ! i, score_array (arrs ! i))"
      "\<forall>j < i. tuple_gt (snd r) (score_array (arrs ! j))" by blast
    from pos i have posi: "0 < fst (score_array (arrs ! i))" by simp
    then obtain xs where xs: "arrs ! i = JArr xs" using score_pos_list by blast
    have "best_findings loads text = Inr (map trim_snippet xs)"
      using posi xs i(2) by (simp add: bf py_iter_def)
    moreover have "\<forall>j < i. tuple_gt (score_array (arrs ! i)) (score_array (arrs ! j))"
      using i by simp
    moreover have "\<forall>j < length arrs. \<not> tuple_gt (score_array (arrs ! j)) (score_array (arrs ! i))"
      using nogt i by simp
    moreover have "fst r = arrs ! i" using i by simp
    ultimately have "\<exists>i < length arrs. \<exists>xs.
            (\<forall>j < i. tuple_gt (score_array (arrs ! i)) (score_array (arrs ! j))) \<and>
            (\<forall>j < length arrs. \<not> tuple_gt (score_array (arrs ! j)) (score_array (arrs ! i))) \<and>
            0 < fst (score_array (arrs ! i)) \<and>
            fst r = arrs ! i \<and> arrs ! i = JArr xs \<and>
            best_findings loads text = Inr (map trim_snippet xs)"
      using i(1) posi xs by blast
    with True show ?thesis
      unfolding Let_def arrs_eq best_eq by simp
  next
    case False
    have "\<not> 0 < fst (score_array (fst r))"
      using alt
    proof
      assume "r = (JNull, (-1, 0))"
      then show ?thesis by (simp add: score_array_def)
    next
      assume "\<exists>i < length arrs. r = (arrs ! i, score_array (arrs ! i)) \<and> tuple_gt (snd r) (-1, 0) \<and>
          (\<forall>j < i. tuple_gt (snd r) (score_array (arrs ! j)))"
      with False show ?thesis by auto
    qed
    then have "best_findings loads text = Inr []" by (simp add: bf)
    with False show ?thesis
      unfolding Let_def arrs_eq by (simp only: if_False simp_thms)
  qed
qed

section \<open>The balanced-bracket scan\<close>

lemma bracket_scan_spans:
  "bracket_scan text i rest stack (map (\<lambda>(a, b). slice text a b) spans) =
     map (\<lambda>(a, b). slice text a b) (span_scan i rest stack spans)"
proof (induction rest arbitrary: i stack spans)
  case Nil
  then show ?case by simp
next
  case (Cons ch rest)
  show ?case
  proof (cases stack)
    case Nil
    then show ?thesis using Cons.IH [of "i + 1" _ spans] by simp
  next
    case (Cons start stack')
    then show ?thesis
      using Cons.IH [of "i + 1" _ spans] Cons.IH [of "i + 1" stack' "spans @ [(start, i + 1)]"]
      by (simp add: Let_def)
  qed
qed

lemma bal_append: "bal d xs \<Longrightarrow> bal e ys \<Longrightarrow> bal (d + e) (xs @ ys)"
proof (induction xs arbitrary: d)
  case Nil
  then show ?case by simp
next
  case (Cons c xs)
  show ?case
  proof (cases "c = RBRACKET")
    case True
    with Cons.prems have d: "d > 0" and b: "bal (d - 1) xs"
      by (auto simp: LBRACKET_def RBRACKET_def)
    from Cons.IH [OF b Cons.prems(2)] d have "bal (d + e - 1) (xs @ ys)" by simp
    with True d show ?thesis by (simp add: LBRACKET_def RBRACKET_def)
  next
    case False
    show ?thesis
    proof (cases "c = LBRACKET")
      case True
      with Cons.prems have "bal (d + 1) xs" by simp
      from Cons.IH [OF this Cons.prems(2)] True show ?thesis by simp
    next
      case other: False
      with False Cons.prems have "bal d xs" by simp
      from Cons.IH [OF this Cons.prems(2)] False other show ?thesis by simp
    qed
  qed
qed

lemma bal_snoc_other: "bal d xs \<Longrightarrow> c \<noteq> LBRACKET \<Longrightarrow> c \<noteq> RBRACKET \<Longrightarrow> bal d (xs @ [c])"
  using bal_append [of d xs 0 "[c]"] by simp

lemma bal_wrap: "bal 0 m \<Longrightarrow> bal 0 (LBRACKET # m @ [RBRACKET])"
  using bal_append [of 0 m 1 "[RBRACKET]"] by (simp add: LBRACKET_def RBRACKET_def)

lemma stack_ok_other:
  assumes "stack_ok pre st" "c \<noteq> LBRACKET" "c \<noteq> RBRACKET"
  shows "stack_ok (pre @ [c]) st"
proof (cases st)
  case Nil
  then show ?thesis by simp
next
  case (Cons s st')
  with assms show ?thesis by (simp add: nth_append bal_snoc_other)
qed

lemma stack_ok_push: "stack_ok pre st \<Longrightarrow> stack_ok (pre @ [LBRACKET]) (length pre # st)"
  by simp

lemma stack_ok_pop:
  assumes "stack_ok pre (s # st)"
  shows "stack_ok (pre @ [RBRACKET]) st"
proof (cases st)
  case Nil
  then show ?thesis by simp
next
  case (Cons s' st')
  from assms have "s < length pre \<and> pre ! s = LBRACKET \<and> bal 0 (drop (Suc s) pre) \<and>
      stack_ok (take s pre) (s' # st')"
    unfolding Cons by (simp only: stack_ok.simps)
  then have s: "s < length pre" "pre ! s = LBRACKET" "bal 0 (drop (Suc s) pre)"
    and below: "stack_ok (take s pre) (s' # st')"
    by blast+
  from below have "s' < length (take s pre) \<and> take s pre ! s' = LBRACKET \<and>
      bal 0 (drop (Suc s') (take s pre)) \<and> stack_ok (take s' (take s pre)) st'"
    by (simp only: stack_ok.simps)
  then have s'0: "s' < length (take s pre)" "take s pre ! s' = LBRACKET"
    and s'3: "bal 0 (drop (Suc s') (take s pre))"
    and rest0: "stack_ok (take s' (take s pre)) st'"
    by blast+
  from s'0 s(1) have s': "s' < s" "pre ! s' = LBRACKET" "bal 0 (drop (Suc s') (take s pre))"
    using s'3 by simp_all
  have tt: "take s' (take s pre) = take s' pre" using s'(1) by (simp add: min_def)
  from rest0 have rest: "stack_ok (take s' pre) st'"
    by (simp only: tt)
  have "drop (Suc s') pre = drop (Suc s') (take s pre @ pre ! s # drop (Suc s) pre)"
    using s(1) by (simp add: id_take_nth_drop [symmetric])
  also have "\<dots> = drop (Suc s') (take s pre) @ LBRACKET # drop (Suc s) pre"
    using s' s by simp
  finally have "drop (Suc s') (pre @ [RBRACKET]) =
      drop (Suc s') (take s pre) @ (LBRACKET # drop (Suc s) pre @ [RBRACKET])"
    using s' s by simp
  moreover have "bal (0 + 0) (drop (Suc s') (take s pre) @ (LBRACKET # drop (Suc s) pre @ [RBRACKET]))"
    by (rule bal_append [OF s'(3) bal_wrap [OF s(3)]])
  ultimately have "bal 0 (drop (Suc s') (pre @ [RBRACKET]))" by simp
  with s' s rest show ?thesis by (simp add: Cons nth_append)
qed

lemma open_depth_snoc: "open_depth (pre @ [c]) = depth_step (open_depth pre) c"
  by (simp add: open_depth_def)

lemma closers_upto:
  "i < length text \<Longrightarrow>
   filter (closes text) [0..<Suc i] =
     filter (closes text) [0..<i] @
       (if text ! i = RBRACKET \<and> 0 < open_depth (take i text) then [i] else [])"
  by (simp add: closes_def)

lemma take_filter_upt:
  assumes "i \<le> n" "length (filter P [0..<i]) \<ge> k"
  shows "take k (map f (filter P [0..<n])) = take k (map f (filter P [0..<i]))"
proof -
  have "[0..<n] = [0..<i] @ [i..<n]"
    using assms(1) upt_add_eq_append [of 0 i "n - i"] by simp
  then show ?thesis using assms(2) by simp
qed

lemma span_scan_inv:
  assumes "text = pre @ rest" "i = length pre" "stack_ok pre stack"
    "length stack = open_depth pre" "length spans < 40"
    "\<forall>p \<in> set spans. bracket_span text p"
    "map snd spans = map Suc (filter (closes text) [0..<i])"
  shows "(\<forall>p \<in> set (span_scan i rest stack spans). bracket_span text p) \<and>
     map snd (span_scan i rest stack spans) = take 40 (map Suc (closers text)) \<and>
     length (span_scan i rest stack spans) \<le> 40"
  using assms
proof (induction rest arbitrary: pre i stack spans)
  case Nil
  have "length (map snd spans) = length (map Suc (filter (closes text) [0..<i]))"
    by (simp only: Nil.prems(7))
  then have "length (filter (closes text) [0..<length text]) < 40"
    using Nil.prems(1,2,5) by simp
  with Nil.prems show ?case by (simp add: closers_def)
next
  case (Cons ch rest)
  have split: "text = (pre @ [ch]) @ rest" and i': "i + 1 = length (pre @ [ch])"
    using Cons.prems by simp_all
  have ilt: "i < length text" and nth: "text ! i = ch" and tk: "take i text = pre"
    using Cons.prems by simp_all
  note upto = closers_upto [OF ilt, unfolded nth tk]
  show ?case
  proof (cases "ch = LBRACKET")
    case True
    have ok': "stack_ok (pre @ [ch]) (i # stack)"
      using Cons.prems(2,3) True stack_ok_push by simp
    have dep: "length (i # stack) = open_depth (pre @ [ch])"
      using Cons.prems(4) True by (simp add: open_depth_snoc depth_step_def)
    have ends: "map snd spans = map Suc (filter (closes text) [0..<i + 1])"
      using Cons.prems(7) True upto by (simp add: LBRACKET_def RBRACKET_def)
    have res: "span_scan i (ch # rest) stack spans = span_scan (i + 1) rest (i # stack) spans"
      using True by simp
    show ?thesis
      unfolding res by (rule Cons.IH [OF split i' ok' dep Cons.prems(5,6) ends])
  next
    case notL: False
    show ?thesis
    proof (cases "ch = RBRACKET \<and> stack \<noteq> []")
      case True
      then obtain start stack' where st: "stack = start # stack'" by (cases stack) auto
      have pos: "0 < open_depth pre" using Cons.prems(4) st by simp
      have ok: "stack_ok pre (start # stack')" using Cons.prems(3) st by simp
      then have start: "start < length pre" "pre ! start = LBRACKET" "bal 0 (drop (Suc start) pre)"
        by simp_all
      have "slice text (start + 1) (i + 1 - 1) = drop (Suc start) pre"
        using Cons.prems(1,2) start(1) by (simp add: slice_def)
      then have span: "bracket_span text (start, i + 1)"
        using start Cons.prems(1,2) True
        by (simp add: bracket_span_def nth_append)
      have ends: "map snd (spans @ [(start, i + 1)]) = map Suc (filter (closes text) [0..<i + 1])"
        using Cons.prems(7) True pos upto by simp
      have good: "\<forall>p \<in> set (spans @ [(start, i + 1)]). bracket_span text p"
        using Cons.prems(6) span by simp
      show ?thesis
      proof (cases "length (spans @ [(start, i + 1)]) \<ge> 40")
        case full: True
        then have len: "length (spans @ [(start, i + 1)]) = 40" using Cons.prems(5) by simp
        have res: "span_scan i (ch # rest) stack spans = spans @ [(start, i + 1)]"
          using True notL st full by (simp add: Let_def)
        have "length (filter (closes text) [0..<i + 1]) = 40"
          using ends len by (metis length_map)
        then have "take 40 (map Suc (filter (closes text) [0..<length text])) =
            take 40 (map Suc (filter (closes text) [0..<i + 1]))"
          using ilt by (intro take_filter_upt) simp_all
        also have "\<dots> = map Suc (filter (closes text) [0..<i + 1])"
          using \<open>length (filter (closes text) [0..<i + 1]) = 40\<close> by simp
        finally show ?thesis
          using good ends len unfolding res by (simp add: closers_def)
      next
        case False
        then have lt: "length (spans @ [(start, i + 1)]) < 40" by simp
        have res: "span_scan i (ch # rest) stack spans =
            span_scan (i + 1) rest stack' (spans @ [(start, i + 1)])"
          using True notL st False by (simp add: Let_def)
        have ok': "stack_ok (pre @ [ch]) stack'"
          using stack_ok_pop [OF ok] True by simp
        have dep: "length stack' = open_depth (pre @ [ch])"
          using Cons.prems(4) st True notL by (simp add: open_depth_snoc depth_step_def)
        show ?thesis
          unfolding res by (rule Cons.IH [OF split i' ok' dep lt good ends])
      qed
    next
      case False
      have res: "span_scan i (ch # rest) stack spans = span_scan (i + 1) rest stack spans"
        using False notL by (cases stack) simp_all
      have nocl: "\<not> (ch = RBRACKET \<and> 0 < open_depth pre)"
        using False Cons.prems(4) by auto
      have ends: "map snd spans = map Suc (filter (closes text) [0..<i + 1])"
        using Cons.prems(7) nocl upto by simp
      have ok': "stack_ok (pre @ [ch]) stack"
      proof (cases "ch = RBRACKET")
        case True
        with False have "stack = []" by simp
        then show ?thesis by simp
      next
        case False
        with notL Cons.prems(3) show ?thesis by (simp add: stack_ok_other)
      qed
      have dep: "length stack = open_depth (pre @ [ch])"
        using Cons.prems(4) False notL by (auto simp: open_depth_snoc depth_step_def)
      show ?thesis
        unfolding res by (rule Cons.IH [OF split i' ok' dep Cons.prems(5,6) ends])
    qed
  qed
qed

lemma closers_sorted: "sorted_wrt (<) (take 40 (map Suc (closers text)))"
proof -
  have "sorted_wrt (<) (map Suc (closers text))"
    unfolding closers_def
    by (simp add: sorted_wrt_map sorted_wrt_filter strict_sorted_iff [symmetric])
  then show ?thesis by (rule sorted_wrt_take)
qed

text \<open>
  Claim C7. The fragments the scan records are the spans \<open>text[a:b]\<close> of a list of
  position pairs: each pair runs from a \<open>[\<close> to the \<open>]\<close> that closes it (the text between
  them has matched brackets), the end positions are those of the first forty closing
  brackets of the text, in increasing order, and there are at most forty fragments. The
  scan is a total function: it ends on every text.
\<close>

theorem balanced_arrays_spans:
  "\<exists>spans.
     balanced_arrays text = map (\<lambda>(a, b). slice text a b) spans \<and>
     (\<forall>p \<in> set spans. bracket_span text p) \<and>
     map snd spans = take 40 (map Suc (closers text)) \<and>
     sorted_wrt (<) (map snd spans) \<and>
     length (balanced_arrays text) \<le> 40"
proof -
  let ?spans = "span_scan 0 text [] []"
  have inv: "(\<forall>p \<in> set ?spans. bracket_span text p) \<and>
     map snd ?spans = take 40 (map Suc (closers text)) \<and> length ?spans \<le> 40"
    by (rule span_scan_inv [of "text" "[]" "text" 0 "[]" "[]"]) (simp_all add: open_depth_def)
  have eq: "balanced_arrays text = map (\<lambda>(a, b). slice text a b) ?spans"
    using bracket_scan_spans [of "text" 0 "text" "[]" "[]"] by (simp add: balanced_arrays_def)
  from inv eq closers_sorted [of "text"] show ?thesis
    by (intro exI [of _ "span_scan 0 text [] []"]) simp
qed

section \<open>Post-processing\<close>

lemma dict_set_keys: "map_of d k \<noteq> None \<Longrightarrow> map fst (dict_set d k v) = map fst d"
  by (induction d) (auto split: if_splits)

lemma map_of_dict_set: "map_of (dict_set d k v) = (map_of d)(k \<mapsto> v)"
  by (induction d) (auto simp: fun_eq_iff)

lemma dict_get_dict_set: "dict_get (dict_set d k v) k' = (if k' = k then v else dict_get d k')"
  by (simp add: dict_get_def map_of_dict_set)

lemma dict_get_str_key: "dict_get d k = JStr s \<Longrightarrow> map_of d k \<noteq> None"
  by (auto simp: dict_get_def split: option.splits)

lemma snippet_cut_trim: "snippet_cut x (trim_snippet x)"
proof (cases x)
  case (JObj d)
  show ?thesis
  proof (cases "dict_get d (py ''snippet'')")
    case (JStr sn)
    show ?thesis
    proof (cases "length sn > 1600")
      case True
      have "map fst (dict_set d (py ''snippet'') (JStr (take 1600 sn @ ELLIPSIS))) = map fst d"
        by (rule dict_set_keys [OF dict_get_str_key [OF JStr]])
      moreover have "list_all (\<lambda>k. k = py ''snippet'' \<or>
          map_of (dict_set d (py ''snippet'') (JStr (take 1600 sn @ ELLIPSIS))) k = map_of d k) (map fst d)"
        by (simp add: list_all_iff map_of_dict_set)
      ultimately show ?thesis
        using JObj JStr True
        by (simp add: snippet_cut_def trim_snippet_def dict_get_dict_set)
    next
      case False
      with JObj JStr show ?thesis by (simp add: snippet_cut_def trim_snippet_def)
    qed
  qed (simp_all add: JObj snippet_cut_def trim_snippet_def)
qed (simp_all add: snippet_cut_def trim_snippet_def)

text \<open>The test of lines 90 to 92.\<close>

lemma trim_snippet_same:
  "(case x of JObj d \<Rightarrow> (case dict_get d (py ''snippet'') of JStr sn \<Rightarrow> \<not> length sn > 1600 | _ \<Rightarrow> True) | _ \<Rightarrow> True)
   \<Longrightarrow> trim_snippet x = x"
  by (auto simp: trim_snippet_def split: json.splits)

lemma trim_loop_step:
  "trim_loop h (it # best) out =
     (if (case h ! it of JObj d \<Rightarrow> (case dict_get d (py ''snippet'') of JStr sn \<Rightarrow> length sn > 1600 | _ \<Rightarrow> False) | _ \<Rightarrow> False)
      then trim_loop (h @ [trim_snippet (h ! it)]) best (out @ [length h])
      else trim_loop h best (out @ [it]))"
  by (auto simp: trim_snippet_def Let_def split: json.splits)

lemma trim_loop_store:
  assumes "\<forall>r \<in> set best. r < length h" "\<forall>r \<in> set out. r < length h"
  shows "take (length h) (fst (trim_loop h best out)) = h \<and>
     map ((!) (fst (trim_loop h best out))) (snd (trim_loop h best out)) =
       map ((!) h) out @ map (\<lambda>r. trim_snippet (h ! r)) best"
  using assms
proof (induction best arbitrary: h out)
  case Nil
  then show ?case by simp
next
  case (Cons it best)
  show ?case
  proof (cases "case h ! it of JObj d \<Rightarrow> (case dict_get d (py ''snippet'') of JStr sn \<Rightarrow> length sn > 1600 | _ \<Rightarrow> False) | _ \<Rightarrow> False")
    case False
    then have same: "trim_snippet (h ! it) = h ! it"
      by (intro trim_snippet_same) (auto split: json.splits)
    have "\<forall>r \<in> set best. r < length h" "\<forall>r \<in> set (out @ [it]). r < length h"
      using Cons.prems by simp_all
    from Cons.IH [OF this] False same show ?thesis
      by (simp add: trim_loop_step del: trim_loop.simps)
  next
    case True
    let ?h = "h @ [trim_snippet (h ! it)]"
    have b: "\<forall>r \<in> set best. r < length ?h" and out: "\<forall>r \<in> set (out @ [length h]). r < length ?h"
      using Cons.prems by (simp_all add: less_Suc_eq)
    have old: "r < length h \<Longrightarrow> ?h ! r = h ! r" for r by (simp add: nth_append)
    have 1: "map ((!) ?h) out = map ((!) h) out"
      using Cons.prems(2) by (simp add: nth_append)
    have 2: "map (\<lambda>r. trim_snippet (?h ! r)) best = map (\<lambda>r. trim_snippet (h ! r)) best"
      using Cons.prems(1) by (simp add: nth_append)
    from Cons.IH [OF b out]
    have "take (length ?h) (fst (trim_loop ?h best (out @ [length h]))) = ?h"
      and m: "map ((!) (fst (trim_loop ?h best (out @ [length h])))) (snd (trim_loop ?h best (out @ [length h]))) =
        map ((!) ?h) (out @ [length h]) @ map (\<lambda>r. trim_snippet (?h ! r)) best"
      by blast+
    then have "take (length h) (take (length ?h) (fst (trim_loop ?h best (out @ [length h])))) = h"
      by simp
    then have t: "take (length h) (fst (trim_loop ?h best (out @ [length h]))) = h"
      by (simp add: min_def)
    from m have "map ((!) (fst (trim_loop ?h best (out @ [length h])))) (snd (trim_loop ?h best (out @ [length h]))) =
        map ((!) h) out @ trim_snippet (h ! it) # map (\<lambda>r. trim_snippet (h ! r)) best"
      by (simp only: map_append 1 2) simp
    with t True show ?thesis
      by (simp add: trim_loop_step del: trim_loop.simps)
  qed
qed

text \<open>
  Claim C5. When the engine accepts the retained candidate (it is not \<open>None\<close> and its
  primary score is above zero), that candidate is a list and the output is a list of the
  same length whose element at each position is the element of the candidate at that
  position, with its snippet cut if it is a mapping whose \<open>snippet\<close> is a string of more
  than 1600 characters (\<open>snippet_cut\<close>). In the store, the loop changes no object it was
  given: every object of the store is as before, a cut record is a new object, and the
  objects the output refers to are the trimmed elements.
\<close>

theorem best_findings_trims:
  "(let best = fst (select_best loads (json_candidates loads text)) in
    if best \<noteq> JNull \<and> 0 < fst (score_array best) then
      (\<exists>xs out. best = JArr xs \<and> best_findings loads text = Inr out \<and>
         length out = length xs \<and> (\<forall>i < length xs. snippet_cut (xs ! i) (out ! i)))
    else best_findings loads text = Inr []) \<and>
   ((\<forall>r \<in> set refs. r < length h) \<longrightarrow>
      take (length h) (fst (trim_loop h refs [])) = h \<and>
      map ((!) (fst (trim_loop h refs []))) (snd (trim_loop h refs [])) =
        map (\<lambda>r. trim_snippet (h ! r)) refs)"
proof -
  define best where "best = fst (select_best loads (json_candidates loads text))"
  have 1: "if best \<noteq> JNull \<and> 0 < fst (score_array best) then
      (\<exists>xs out. best = JArr xs \<and> best_findings loads text = Inr out \<and>
         length out = length xs \<and> (\<forall>i < length xs. snippet_cut (xs ! i) (out ! i)))
    else best_findings loads text = Inr []"
  proof (cases "best \<noteq> JNull \<and> 0 < fst (score_array best)")
    case True
    then obtain xs where xs: "best = JArr xs" using score_pos_list by blast
    with True have "best_findings loads text = Inr (map trim_snippet xs)"
      by (simp add: best_findings_def best_def [symmetric] py_iter_def)
    with xs True show ?thesis
      by (simp add: snippet_cut_trim)
  next
    case False
    then have "best_findings loads text = Inr []"
      by (auto simp: best_findings_def best_def [symmetric] Let_def)
    with False show ?thesis by (simp only: if_False)
  qed
  have 2: "(\<forall>r \<in> set refs. r < length h) \<longrightarrow>
      take (length h) (fst (trim_loop h refs [])) = h \<and>
      map ((!) (fst (trim_loop h refs []))) (snd (trim_loop h refs [])) =
        map (\<lambda>r. trim_snippet (h ! r)) refs"
    using trim_loop_store [of refs h "[]"] by simp
  from 1 2 show ?thesis unfolding best_def Let_def by blast
qed

section \<open>The lenient engine\<close>

lemma filter_upt_Suc:
  "filter P [0..<Suc i] = filter P [0..<i] @ (if P i then [i] else [])"
  by simp

lemma spec_span_upto_Suc:
  "spec_span_upto s (Suc i) =
     (if top_closer s i then Some (last (filter (top_opener s) [0..<i]), Suc i)
      else spec_span_upto s i)"
  by (simp add: spec_span_upto_def Let_def)

text \<open>The loop invariant of \<open>last_array\<close>: after the text \<open>pre\<close>, \<open>depth\<close> is the number
  of open brackets, \<open>start\<close> the last top-level opener and \<open>last\<close> the last top-level
  span.\<close>

lemma last_scan_inv:
  assumes "s = pre @ rest" "i = length pre" "depth = open_depth pre"
    "start = (if filter (top_opener s) [0..<i] = [] then None
              else Some (last (filter (top_opener s) [0..<i])))"
    "depth > 0 \<longrightarrow> filter (top_opener s) [0..<i] \<noteq> []"
    "found = spec_span_upto s i"
  shows "last_scan i rest start depth found = spec_last_span s"
  using assms
proof (induction rest arbitrary: pre i depth start found)
  case Nil
  then show ?case by (simp add: spec_last_span_def)
next
  case (Cons ch rest)
  have split: "s = (pre @ [ch]) @ rest" and i': "i + 1 = length (pre @ [ch])"
    using Cons.prems by simp_all
  have nth: "s ! i = ch" and tk: "take i s = pre"
    using Cons.prems by simp_all
  have opener: "top_opener s i \<longleftrightarrow> ch = LBRACKET \<and> depth = 0"
    using Cons.prems(3) by (simp add: top_opener_def nth tk)
  have closer: "top_closer s i \<longleftrightarrow> ch = RBRACKET \<and> depth = 1"
    using Cons.prems(3) by (simp add: top_closer_def nth tk)
  have dep: "open_depth (pre @ [ch]) = depth_step depth ch"
    using Cons.prems(3) by (simp add: open_depth_snoc)
  show ?case
  proof (cases "ch = LBRACKET")
    case True
    have res: "last_scan i (ch # rest) start depth found =
        last_scan (i + 1) rest (if depth = 0 then Some i else start) (depth + 1) found"
      using True by simp
    have 1: "depth + 1 = open_depth (pre @ [ch])"
      using True dep by (simp add: depth_step_def)
    have 2: "(if depth = 0 then Some i else start) =
        (if filter (top_opener s) [0..<i + 1] = [] then None
         else Some (last (filter (top_opener s) [0..<i + 1])))"
      using Cons.prems(4,5) opener True by (simp add: filter_upt_Suc)
    have 3: "depth + 1 > 0 \<longrightarrow> filter (top_opener s) [0..<i + 1] \<noteq> []"
      using Cons.prems(5) opener True by (cases "depth = 0") (simp_all add: filter_upt_Suc)
    have 4: "found = spec_span_upto s (i + 1)"
      using Cons.prems(6) closer True by (simp add: spec_span_upto_Suc LBRACKET_def RBRACKET_def)
    show ?thesis
      unfolding res by (rule Cons.IH [OF split i' 1 2 3 4])
  next
    case notL: False
    then have nopen: "\<not> top_opener s i" using opener by simp
    have 2: "start = (if filter (top_opener s) [0..<i + 1] = [] then None
         else Some (last (filter (top_opener s) [0..<i + 1])))"
      using Cons.prems(4) nopen by (simp add: filter_upt_Suc)
    show ?thesis
    proof (cases "ch = RBRACKET \<and> depth > 0")
      case True
      then have ne: "filter (top_opener s) [0..<i] \<noteq> []" using Cons.prems(5) by simp
      then have st: "start = Some (last (filter (top_opener s) [0..<i]))"
        using Cons.prems(4) by simp
      have 1: "depth - 1 = open_depth (pre @ [ch])"
        using True notL dep by (simp add: depth_step_def)
      have 3: "depth - 1 > 0 \<longrightarrow> filter (top_opener s) [0..<i + 1] \<noteq> []"
        using ne by (simp add: filter_upt_Suc)
      show ?thesis
      proof (cases "depth - 1 = 0")
        case zero: True
        then have "depth = 1" using True by simp
        then have cl: "top_closer s i" using closer True by simp
        have res: "last_scan i (ch # rest) start depth found =
            last_scan (i + 1) rest start (depth - 1)
              (Some (last (filter (top_opener s) [0..<i]), i + 1))"
          using True notL st zero by simp
        have 4: "Some (last (filter (top_opener s) [0..<i]), i + 1) = spec_span_upto s (i + 1)"
          using cl by (simp add: spec_span_upto_Suc)
        show ?thesis
          unfolding res by (rule Cons.IH [OF split i' 1 2 3 4])
      next
        case False
        then have ncl: "\<not> top_closer s i" using closer by simp
        have res: "last_scan i (ch # rest) start depth found =
            last_scan (i + 1) rest start (depth - 1) found"
          using True notL st False by simp
        have 4: "found = spec_span_upto s (i + 1)"
          using Cons.prems(6) ncl by (simp add: spec_span_upto_Suc)
        show ?thesis
          unfolding res by (rule Cons.IH [OF split i' 1 2 3 4])
      qed
    next
      case False
      then have ncl: "\<not> top_closer s i" using closer by auto
      have res: "last_scan i (ch # rest) start depth found =
          last_scan (i + 1) rest start depth found"
        using False notL by auto
      have 1: "depth = open_depth (pre @ [ch])"
        using False notL dep by (auto simp: depth_step_def)
      have 3: "depth > 0 \<longrightarrow> filter (top_opener s) [0..<i + 1] \<noteq> []"
        using Cons.prems(5) by (simp add: filter_upt_Suc)
      have 4: "found = spec_span_upto s (i + 1)"
        using Cons.prems(6) ncl by (simp add: spec_span_upto_Suc)
      show ?thesis
        unfolding res by (rule Cons.IH [OF split i' 1 2 3 4])
    qed
  qed
qed

lemma last_span_spec: "last_span s = spec_last_span s"
  unfolding last_span_def
  by (rule last_scan_inv [of s "[]"]) (simp_all add: open_depth_def spec_span_upto_def Let_def)

lemma no_bracket_no_span:
  assumes "RBRACKET \<notin> set s"
  shows "spec_last_span s = None"
proof -
  have "\<forall>x < length s. s ! x \<noteq> RBRACKET"
    using assms nth_mem by metis
  then have "filter (top_closer s) [0..<length s] = []"
    by (auto simp: filter_empty_conv top_closer_def)
  then show ?thesis by (simp add: spec_last_span_def spec_span_upto_def Let_def)
qed

text \<open>
  Claim C8. When the whole text parses neither as an array nor as an object with a
  \<open>findings\<close> array, and the envelope gives no text (or an empty text, or a text that
  yields no array), the lenient engine returns the array that the most recently closed
  top-level span parses as, and nothing when there is no such span or it does not parse
  as an array. The span \<open>last_array\<close> retains is the one the specification describes.
  A text without \<open>]\<close> has no span. The program prints the array found, or the literal
  \<open>[]\<close> when none was found; it does not fail.
\<close>

theorem salvage_json_last_span:
  "(try_top_struct loads s = None \<and>
    (case try_message_content loads s of
       None \<Rightarrow> True
     | Some inner \<Rightarrow> inner = [] \<or> inner_array loads inner = None) \<longrightarrow>
      salvage_json loads s =
        (case spec_last_span s of
           None \<Rightarrow> None
         | Some (a, b) \<Rightarrow>
             (case loads (slice s a b) of Some (JArr arr) \<Rightarrow> Some arr | _ \<Rightarrow> None))) \<and>
   last_span s = spec_last_span s \<and>
   (RBRACKET \<notin> set s \<longrightarrow> last_array loads s = None) \<and>
   json_main loads dumps s =
     Inr [case salvage_json loads s of Some arr \<Rightarrow> dumps (JArr arr) | None \<Rightarrow> py ''[]'']"
proof -
  have la: "last_array loads s =
      (case spec_last_span s of
         None \<Rightarrow> None
       | Some (a, b) \<Rightarrow>
           (case loads (slice s a b) of Some (JArr arr) \<Rightarrow> Some arr | _ \<Rightarrow> None))"
    by (simp add: last_array_def last_span_spec)
  have 1: "try_top_struct loads s = None \<and>
    (case try_message_content loads s of
       None \<Rightarrow> True
     | Some inner \<Rightarrow> inner = [] \<or> inner_array loads inner = None) \<longrightarrow>
      salvage_json loads s = last_array loads s"
    by (auto simp: salvage_json_def split: option.splits)
  have 3: "RBRACKET \<notin> set s \<longrightarrow> last_array loads s = None"
    by (simp add: la no_bracket_no_span)
  have 4: "json_main loads dumps s =
     Inr [case salvage_json loads s of Some arr \<Rightarrow> dumps (JArr arr) | None \<Rightarrow> py ''[]'']"
    by (simp add: json_main_def split: option.splits)
  from 1 3 4 show ?thesis
    unfolding la [symmetric] using last_span_spec by blast
qed

section \<open>The envelope unwrap\<close>

lemma wrapper_yield_payload:
  "wrapper_yield obj k = (case envelope_payload obj k of Some c \<Rightarrow> [JStr c] | None \<Rightarrow> [])"
  by (auto simp: wrapper_yield_def envelope_payload_def dict_get_def Let_def
      split: option.splits json.splits)

lemma concat_map_option:
  "concat (map (\<lambda>k. case f k of Some c \<Rightarrow> [g c] | None \<Rightarrow> []) ks) = map g (List.map_filter f ks)"
  by (induction ks) (auto simp: List.map_filter_simps split: option.splits)

text \<open>
  Claim C9. Strategy 2 yields something only when the whole text parses as an object;
  it then yields, for the keys \<open>message\<close>, \<open>output\<close>, \<open>response\<close>, \<open>content\<close>, \<open>text\<close> in
  this order, the payload of each key that has one. A payload is parsed once: what it
  parses to is scored as it is, so a payload that is itself a string literal or an
  envelope without a \<open>findings\<close> list scores \<open>(-1, 0)\<close>.
\<close>

theorem wrapper_candidates_payloads:
  "wrapper_candidates loads text =
     (case loads text of
        Some (JObj obj) \<Rightarrow>
          map JStr (List.map_filter (envelope_payload obj)
            [py ''message'', py ''output'', py ''response'', py ''content'', py ''text''])
      | _ \<Rightarrow> []) \<and>
   cand_array loads (JStr c) = unwrap (case loads c of Some v \<Rightarrow> v | None \<Rightarrow> JNull) \<and>
   (loads c = Some (JStr c') \<longrightarrow> score_array (cand_array loads (JStr c)) = (-1, 0)) \<and>
   (loads c = Some (JObj d) \<and> \<not> is_list (dict_get d (py ''findings'')) \<longrightarrow>
      score_array (cand_array loads (JStr c)) = (-1, 0))"
proof -
  have 1: "wrapper_candidates loads text =
     (case loads text of
        Some (JObj obj) \<Rightarrow>
          map JStr (List.map_filter (envelope_payload obj)
            [py ''message'', py ''output'', py ''response'', py ''content'', py ''text''])
      | _ \<Rightarrow> [])"
    unfolding wrapper_candidates_def wrapper_yield_payload [abs_def] concat_map_option
    by (simp add: WRAPPER_KEYS_def split: option.splits json.splits)
  have 2: "cand_array loads (JStr c) = unwrap (case loads c of Some v \<Rightarrow> v | None \<Rightarrow> JNull)"
    by (simp add: cand_array_def load_json_def)
  have 3: "loads c = Some (JStr c') \<longrightarrow> score_array (cand_array loads (JStr c)) = (-1, 0)"
    by (simp add: 2 unwrap_def score_array_def)
  have 4: "loads c = Some (JObj d) \<and> \<not> is_list (dict_get d (py ''findings'')) \<longrightarrow>
      score_array (cand_array loads (JStr c)) = (-1, 0)"
    by (simp add: 2 unwrap_def score_array_def)
  from 1 2 3 4 show ?thesis by blast
qed

section \<open>Round trip\<close>

lemma spec_valid_py_valid: "spec_valid_record r \<Longrightarrow> py_valid_record r"
proof -
  have "is_number v \<Longrightarrow> is_int_or_float v" for v by (cases v) simp_all
  then show "spec_valid_record r \<Longrightarrow> py_valid_record r"
    by (auto simp: spec_valid_record_def py_valid_record_def record_shape_def split: json.splits)
qed

lemma score_all_valid:
  assumes "\<forall>r \<in> set recs. spec_valid_record r"
  shows "score_array (JArr recs) = (int (length recs), int (length recs))"
proof -
  have "filter py_valid_record recs = recs"
    using assms by (simp add: spec_valid_py_valid)
  moreover have "filter is_dict recs = recs"
    using assms by (simp add: spec_valid_py_valid py_valid_is_dict)
  ultimately show ?thesis by (simp add: score_array_list)
qed

lemma select_best_score:
  "snd (select_best loads cs) = score_array (fst (select_best loads cs))"
  using select_fold [of loads JNull "(-1, 0)" cs]
  by (auto simp: select_best_def Let_def score_array_def)

lemma select_best_max:
  "a \<in> set (map (cand_array loads) cs) \<Longrightarrow> \<not> tuple_gt (score_array a) (snd (select_best loads cs))"
  using select_fold [of loads JNull "(-1, 0)" cs]
  by (auto simp: select_best_def Let_def in_set_conv_nth)

lemma direct_first:
  "loads text = Some v \<Longrightarrow> \<exists>rest. json_candidates loads text = v # rest"
  by (simp add: json_candidates_def direct_candidates_def)

lemma is_list_iff: "is_list v \<longleftrightarrow> (\<exists>xs. v = JArr xs)"
  by (cases v) simp_all

lemma cand_array_spec: "cand_array loads c = spec_array loads c"
  by (auto simp: cand_array_def spec_array_def load_json_def unwrap_def dict_get_def Let_def
      is_list_iff split: json.splits option.splits)

lemma candidate_arrays_spec: "candidate_arrays loads text = spec_arrays loads text"
  by (simp add: candidate_arrays_def spec_arrays_def cand_array_spec)

lemma short_snippet_same: "short_snippet x \<Longrightarrow> snippet_cut x y \<Longrightarrow> y = x"
  by (auto simp: short_snippet_def snippet_cut_def dict_get_def split: json.splits option.splits)

lemma trimmed_output:
  "\<exists>out. Inr (map trim_snippet recs) = (Inr out :: py_error + json list) \<and>
     length out = length recs \<and>
     (\<forall>k < length recs. snippet_cut (recs ! k) (out ! k)) \<and>
     ((\<forall>x \<in> set recs. short_snippet x) \<longrightarrow> out = recs)"
proof -
  have same: "(\<forall>x \<in> set recs. short_snippet x) \<longrightarrow> map trim_snippet recs = recs"
    using short_snippet_same [OF _ snippet_cut_trim] by (simp add: map_idI)
  then show ?thesis
    by (intro exI [of _ "map trim_snippet recs"]) (simp add: snippet_cut_trim)
qed

text \<open>
  Claim C1, amended. When the text parses as an array of \<open>N \<ge> 1\<close> valid records, that
  array scores \<open>(N, N)\<close> and the primary score of the selected candidate is at least
  \<open>N\<close>. If no candidate array scores strictly more than \<open>(N, N)\<close>, the engine returns
  those \<open>N\<close> records: the output has their number, holds at each position the record
  of the input with its snippet cut as claim C5 says, and is the list of the input itself
  when no snippet has more than 1600 characters; the selected score is then \<open>(N, N)\<close>.
\<close>

theorem best_findings_round_trip:
  "loads text = Some (JArr recs) \<and> recs \<noteq> [] \<and> (\<forall>r \<in> set recs. spec_valid_record r) \<longrightarrow>
     (let N = int (length recs) in
        score_array (JArr recs) = (N, N) \<and>
        N \<le> fst (snd (select_best loads (json_candidates loads text))) \<and>
        ((\<forall>a \<in> set (spec_arrays loads text). \<not> tuple_gt (score_array a) (N, N)) \<longrightarrow>
           (\<exists>out. best_findings loads text = Inr out \<and> length out = length recs \<and>
              (\<forall>k < length recs. snippet_cut (recs ! k) (out ! k)) \<and>
              ((\<forall>x \<in> set recs. short_snippet x) \<longrightarrow> out = recs)) \<and>
           snd (select_best loads (json_candidates loads text)) = (N, N)))"
proof (intro impI, elim conjE)
  assume parsed: "loads text = Some (JArr recs)" and ne: "recs \<noteq> []"
    and valid: "\<forall>r \<in> set recs. spec_valid_record r"
  define N where "N = int (length recs)"
  define cs where "cs = json_candidates loads text"
  define arrs where "arrs = candidate_arrays loads text"
  have sc: "score_array (JArr recs) = (N, N)"
    unfolding N_def by (rule score_all_valid [OF valid])
  have Npos: "0 < N" using ne by (simp add: N_def)
  obtain rest where cs: "cs = JArr recs # rest"
    using direct_first [of loads "text" "JArr recs"] parsed cs_def by blast
  have arrs: "arrs = JArr recs # map (cand_array loads) rest"
    by (simp add: arrs_def candidate_arrays_def cs_def [symmetric] cs cand_array_def
        load_json_def unwrap_def)
  have arrs_cs: "arrs = map (cand_array loads) cs"
    by (simp add: arrs_def candidate_arrays_def cs_def)
  have arrs_spec: "spec_arrays loads text = arrs"
    by (simp add: arrs_def candidate_arrays_spec)
  have "JArr recs \<in> set (map (cand_array loads) cs)"
    using arrs arrs_cs by simp
  from select_best_max [OF this] sc
  have ge: "N \<le> fst (snd (select_best loads cs))"
    by (auto dest: tuple_gt_fst)
  have "(\<exists>out. best_findings loads text = Inr out \<and> length out = length recs \<and>
              (\<forall>k < length recs. snippet_cut (recs ! k) (out ! k)) \<and>
              ((\<forall>x \<in> set recs. short_snippet x) \<longrightarrow> out = recs)) \<and>
        snd (select_best loads cs) = (N, N)"
    if top: "\<forall>a \<in> set arrs. \<not> tuple_gt (score_array a) (N, N)"
  proof -
    have "\<exists>j < length arrs. 0 < fst (score_array (arrs ! j))"
      using arrs sc Npos by (intro exI [of _ 0]) simp
    with select_best_first_max [of loads "text"]
    obtain i xs where i: "i < length arrs"
      "\<forall>j < i. tuple_gt (score_array (arrs ! i)) (score_array (arrs ! j))"
      "fst (select_best loads cs) = arrs ! i" "arrs ! i = JArr xs"
      "best_findings loads text = Inr (map trim_snippet xs)"
      unfolding Let_def arrs_def [symmetric] cs_def [symmetric] by auto
    have "i = 0"
    proof (rule ccontr)
      assume "i \<noteq> 0"
      then have "tuple_gt (score_array (arrs ! i)) (score_array (arrs ! 0))" using i(2) by simp
      then have "tuple_gt (score_array (arrs ! i)) (N, N)" using arrs sc by simp
      moreover have "arrs ! i \<in> set arrs" using i(1) by simp
      ultimately show False using top by blast
    qed
    with i arrs have "xs = recs" "fst (select_best loads cs) = JArr recs" by simp_all
    with i(5) sc select_best_score [of loads cs] trimmed_output [of recs] show ?thesis by simp
  qed
  with sc ge show "let N = int (length recs) in
        score_array (JArr recs) = (N, N) \<and>
        N \<le> fst (snd (select_best loads (json_candidates loads text))) \<and>
        ((\<forall>a \<in> set (spec_arrays loads text). \<not> tuple_gt (score_array a) (N, N)) \<longrightarrow>
           (\<exists>out. best_findings loads text = Inr out \<and> length out = length recs \<and>
              (\<forall>k < length recs. snippet_cut (recs ! k) (out ! k)) \<and>
              ((\<forall>x \<in> set recs. short_snippet x) \<longrightarrow> out = recs)) \<and>
           snd (select_best loads (json_candidates loads text)) = (N, N))"
    unfolding Let_def N_def [symmetric] cs_def [symmetric] arrs_spec by blast
qed

section \<open>Selection and the output\<close>


section \<open>The findings pattern\<close>






section \<open>Evaluating the example inputs\<close>


lemma array_text_loads: "json_loads ARRAY_TEXT = Some (JArr [RECORD])"
  by code_simp



lemma record_score: "score_array (JArr [RECORD]) = (1, 1)"
  by code_simp

lemma record_untrimmed: "trim_snippet RECORD = RECORD"
  by code_simp








lemma nested_spans_arrays:
  "balanced_arrays (py ''a[b[c]d]e]'') = [py ''[c]'', py ''[b[c]d]'']"
  by (simp add: balanced_arrays_def py_def slice_def LBRACKET_def RBRACKET_def)

text \<open>
  Claim C7 on a text of a hundred disjoint spans \<open>[]\<close>, which yields at most forty
  fragments, and on a text with a nested span and an unmatched \<open>]\<close>: the inner span is
  recorded first, since it is closed first.
\<close>

theorem balanced_arrays_spans_witness:
  "length (balanced_arrays HUNDRED_SPANS) \<le> 40 \<and>
   balanced_arrays (py ''a[b[c]d]e]'') = [py ''[c]'', py ''[b[c]d]'']"
  using balanced_arrays_spans [of HUNDRED_SPANS] nested_spans_arrays
  by blast

lemma array_text_selected:
  "select_best json_loads (json_candidates json_loads ARRAY_TEXT) = (JArr [RECORD], (1, 1))"
  by code_simp

lemma long_record_trimmed: "trim_snippet LONG_RECORD = CUT_RECORD"
  by (simp add: trim_snippet_def LONG_RECORD_def CUT_RECORD_def dict_get_def py_def ELLIPSIS_def)

lemma long_record_cut: "snippet_cut LONG_RECORD CUT_RECORD"
  using snippet_cut_trim [of LONG_RECORD] by (simp add: long_record_trimmed)

lemma long_record_loop:
  "trim_loop [LONG_RECORD, JInt 7, RECORD] [0, 1, 2] [] =
     ([LONG_RECORD, JInt 7, RECORD, CUT_RECORD], [3, 1, 2])"
proof -
  have 1: "(case LONG_RECORD of JObj d \<Rightarrow> (case dict_get d (py ''snippet'') of JStr sn \<Rightarrow> length sn > 1600 | _ \<Rightarrow> False) | _ \<Rightarrow> False)"
    by (simp add: LONG_RECORD_def dict_get_def py_def)
  have 2: "\<not> (case RECORD of JObj d \<Rightarrow> (case dict_get d (py ''snippet'') of JStr sn \<Rightarrow> length sn > 1600 | _ \<Rightarrow> False) | _ \<Rightarrow> False)"
    by (simp add: RECORD_def dict_get_def py_def)
  show ?thesis
    using 1 2 by (simp add: trim_loop_step long_record_trimmed eval_nat_numeral del: trim_loop.simps(2))
qed

text \<open>
  Claim C5 on the array of one record with a short snippet, which the engine returns as
  it is, and on a store of three objects, the first a record with a snippet of 2000
  characters: the loop adds the cut record as a fourth object and leaves the three as
  they were.
\<close>

theorem best_findings_trims_witness:
  "fst (select_best json_loads (json_candidates json_loads ARRAY_TEXT)) = JArr [RECORD] \<and>
   best_findings json_loads ARRAY_TEXT = Inr [RECORD] \<and>
   snippet_cut RECORD RECORD \<and>
   trim_loop [LONG_RECORD, JInt 7, RECORD] [0, 1, 2] [] =
     ([LONG_RECORD, JInt 7, RECORD, CUT_RECORD], [3, 1, 2]) \<and>
   take 3 (fst (trim_loop [LONG_RECORD, JInt 7, RECORD] [0, 1, 2] [])) = [LONG_RECORD, JInt 7, RECORD] \<and>
   snippet_cut LONG_RECORD CUT_RECORD"
proof -
  have acc: "fst (select_best json_loads (json_candidates json_loads ARRAY_TEXT)) = JArr [RECORD]"
    by (simp add: array_text_selected)
  note T = best_findings_trims [of json_loads ARRAY_TEXT "[0, 1, 2]" "[LONG_RECORD, JInt 7, RECORD]"]
  from T [THEN conjunct1]
  have "\<exists>out. best_findings json_loads ARRAY_TEXT = Inr out \<and> length out = 1 \<and>
      snippet_cut RECORD (out ! 0)"
    unfolding Let_def acc by (simp add: record_score)
  moreover from T [THEN conjunct2]
  have st: "take 3 (fst (trim_loop [LONG_RECORD, JInt 7, RECORD] [0, 1, 2] [])) =
      [LONG_RECORD, JInt 7, RECORD]"
    by (simp add: numeral_3_eq_3 del: trim_loop.simps)
  ultimately obtain out where out: "best_findings json_loads ARRAY_TEXT = Inr out" "length out = 1"
    "snippet_cut RECORD (out ! 0)" by blast
  have "snippet_cut RECORD y \<Longrightarrow> y = RECORD" for y
    by (simp add: snippet_cut_def RECORD_def dict_get_def py_def)
  with out(3) have "out ! 0 = RECORD" by blast
  with out(2) have "out = [RECORD]" by (cases out) simp_all
  with out acc st long_record_loop long_record_cut show ?thesis by simp
qed

lemma prose_span_top: "try_top_struct json_loads PROSE_SPAN = None"
  by code_simp

lemma prose_span_envelope: "try_message_content json_loads PROSE_SPAN = None"
  by code_simp

lemma prose_span_spec: "spec_last_span PROSE_SPAN = Some (14, 21)"
  by code_simp

lemma prose_span_slice: "slice PROSE_SPAN 14 21 = py ''[1,2,3]''"
  by code_simp

lemma one_two_three: "json_loads (py ''[1,2,3]'') = Some (JArr [JInt 1, JInt 2, JInt 3])"
  by code_simp

lemma prose_top: "try_top_struct json_loads PROSE = None"
  by code_simp

lemma prose_envelope: "try_message_content json_loads PROSE = None"
  by code_simp

lemma prose_no_bracket: "RBRACKET \<notin> set PROSE"
  by code_simp

text \<open>
  Claim C8 on prose around the span \<open>[1,2,3]\<close>, which yields that array, and on prose
  without brackets, which yields nothing, so that the program prints \<open>[]\<close>.
\<close>

theorem salvage_json_last_span_witness:
  "try_top_struct json_loads PROSE_SPAN = None \<and>
   try_message_content json_loads PROSE_SPAN = None \<and>
   last_span PROSE_SPAN = Some (14, 21) \<and>
   slice PROSE_SPAN 14 21 = py ''[1,2,3]'' \<and>
   salvage_json json_loads PROSE_SPAN = Some [JInt 1, JInt 2, JInt 3] \<and>
   RBRACKET \<notin> set PROSE \<and>
   salvage_json json_loads PROSE = None \<and>
   json_main json_loads (\<lambda>v. py ''?'') PROSE = Inr [py ''[]'']"
proof -
  note A = salvage_json_last_span [of json_loads PROSE_SPAN "\<lambda>v. py ''?''"]
  note B = salvage_json_last_span [of json_loads PROSE "\<lambda>v. py ''?''"]
  have 1: "salvage_json json_loads PROSE_SPAN = Some [JInt 1, JInt 2, JInt 3]"
    using A prose_span_top prose_span_envelope prose_span_spec prose_span_slice one_two_three
    by simp
  have 2: "last_span PROSE_SPAN = Some (14, 21)"
    using A prose_span_spec by simp
  have "last_array json_loads PROSE = None"
    using B prose_no_bracket by blast
  moreover have "salvage_json json_loads PROSE = last_array json_loads PROSE"
    by (simp add: salvage_json_def prose_top prose_envelope)
  ultimately have 3: "salvage_json json_loads PROSE = None" by simp
  with B have 4: "json_main json_loads (\<lambda>v. py ''?'') PROSE = Inr [py ''[]'']" by simp
  from 1 2 3 4 prose_span_top prose_span_envelope prose_span_slice prose_no_bracket
  show ?thesis by blast
qed

lemma wrapped_loads:
  "json_loads WRAPPED_TEXT =
     Some (JObj [(py ''message'', JObj [(py ''content'', JStr ARRAY_TEXT)])])"
  by code_simp

lemma wrapped_candidates: "wrapper_candidates json_loads WRAPPED_TEXT = [JStr ARRAY_TEXT]"
  by code_simp

lemma wrapped_best: "best_findings json_loads WRAPPED_TEXT = Inr [RECORD]"
  by code_simp

lemma quoted_empty_loads: "json_loads (json_quote (py ''[]'')) = Some (JStr (py ''[]''))"
  by code_simp

lemma inner_envelope_loads:
  "json_loads (py ''{\"output\":\"[]\"}'') = Some (JObj [(py ''output'', JStr (py ''[]''))])"
  by code_simp

lemma inner_envelope_findings:
  "\<not> is_list (dict_get [(py ''output'', JStr (py ''[]''))] (py ''findings''))"
  by code_simp

text \<open>
  Claim C9 on the wrapper example of the specification: strategy 2 yields the
  \<open>content\<close> string, which parses as the array of the one record, and the engine returns
  that record. A payload that is a quoted array, or an envelope again, scores \<open>(-1, 0)\<close>.
\<close>

theorem wrapper_candidates_payloads_witness:
  "wrapper_candidates json_loads WRAPPED_TEXT = [JStr ARRAY_TEXT] \<and>
   json_loads ARRAY_TEXT = Some (JArr [RECORD]) \<and>
   best_findings json_loads WRAPPED_TEXT = Inr [RECORD] \<and>
   json_loads (json_quote (py ''[]'')) = Some (JStr (py ''[]'')) \<and>
   score_array (cand_array json_loads (JStr (json_quote (py ''[]'')))) = (-1, 0) \<and>
   json_loads (py ''{\"output\":\"[]\"}'') = Some (JObj [(py ''output'', JStr (py ''[]''))]) \<and>
   score_array (cand_array json_loads (JStr (py ''{\"output\":\"[]\"}''))) = (-1, 0)"
proof -
  note A = wrapper_candidates_payloads [of json_loads WRAPPED_TEXT "json_quote (py ''[]'')"
      "py ''[]''" "[]"]
  note B = wrapper_candidates_payloads [of json_loads WRAPPED_TEXT "py ''{\"output\":\"[]\"}''"
      "[]" "[(py ''output'', JStr (py ''[]''))]"]
  have 1: "score_array (cand_array json_loads (JStr (json_quote (py ''[]'')))) = (-1, 0)"
    using A quoted_empty_loads by blast
  have 2: "score_array (cand_array json_loads (JStr (py ''{\"output\":\"[]\"}''))) = (-1, 0)"
    using B inner_envelope_loads inner_envelope_findings by blast
  from 1 2 wrapped_candidates array_text_loads wrapped_best quoted_empty_loads inner_envelope_loads
  show ?thesis by blast
qed






end
